theory Spec2Isabelle
  imports Complex_Main
begin

section \<open>Readers of RSPt output files (readfile.py)\<close>

text \<open>
  The three readers \<open>hyb\<close>, \<open>self_energy\<close> and \<open>pdos\<close> of \<^verbatim>\<open>readfile.py\<close> are
  embedded as functions on the contents of the files they are given. A numeric text file
  is the list of its rows, every row the list of the numbers on it; the log file is the
  list of its lines. Floating-point numbers are read as real numbers and numpy's complex
  numbers as \<^typ>\<open>complex\<close>. The orbital count is a natural number. The unit constant
  \<open>eV\<close> comes from the module \<^verbatim>\<open>constants\<close> and is a parameter of every reader.
  Every exception and every \<^verbatim>\<open>sys.exit\<close> of the source is a value of type \<open>error\<close>.
\<close>

subsection \<open>Errors and arrays\<close>

datatype error =
    ValueError
  | IndexError
  | AttributeError
  | CalledProcessError
  | SystemExit string

type_synonym table = "real list list"

type_synonym carray2 = "complex list list"

type_synonym carray3 = "complex list list list"

text \<open>
  \<^verbatim>\<open>np.loadtxt(fname)\<close>: the value \<^verbatim>\<open>None\<close> is no file name, and rows of different
  lengths are refused; both raise \<^verbatim>\<open>ValueError\<close>.
\<close>

definition loadtxt :: "table option \<Rightarrow> error + table" where
  "loadtxt fname =
     (case fname of
        None \<Rightarrow> Inl ValueError
      | Some rows \<Rightarrow>
          if (\<forall>r \<in> set rows. length r = length (hd rows)) then Inr rows
          else Inl ValueError)"

text \<open>
  \<^verbatim>\<open>np.loadtxt\<close> squeezes axes of length one, so what it returns has two axes only when
  the file has at least two rows and at least two columns. An index expression with two
  subscripts, such as \<^verbatim>\<open>re[:, 0]\<close>, raises \<^verbatim>\<open>IndexError\<close> on anything else.
\<close>

definition is2d :: "table \<Rightarrow> bool" where
  "is2d a \<longleftrightarrow> 2 \<le> length a \<and> 2 \<le> length (hd a)"

definition ncols :: "'a list list \<Rightarrow> nat" where
  "ncols a = (case a of [] \<Rightarrow> 0 | r # _ \<Rightarrow> length r)"

text \<open>\<^verbatim>\<open>a[:, lo:hi]\<close> and \<^verbatim>\<open>a[:, lo:]\<close>: slices are clipped and never fail.\<close>

definition slice_cols :: "nat \<Rightarrow> nat \<Rightarrow> 'a list list \<Rightarrow> 'a list list" where
  "slice_cols lo hi a = map (\<lambda>r. drop lo (take hi r)) a"

definition cols_from :: "nat \<Rightarrow> 'a list list \<Rightarrow> 'a list list" where
  "cols_from lo a = map (drop lo) a"

text \<open>\<^verbatim>\<open>a[:, n]\<close> with an integer \<open>n\<close>: out of range raises \<^verbatim>\<open>IndexError\<close>.\<close>

definition column :: "nat \<Rightarrow> 'a list list \<Rightarrow> error + 'a list" where
  "column n a = (if n < ncols a then Inr (map (\<lambda>r. r ! n) a) else Inl IndexError)"

definition scale :: "real \<Rightarrow> table \<Rightarrow> table" where
  "scale c a = map (map (\<lambda>x. c * x)) a"

definition transpose_arr :: "'a list list \<Rightarrow> 'a list list" where
  "transpose_arr a = map (\<lambda>i. map (\<lambda>r. r ! i) a) [0..<ncols a]"

text \<open>numpy broadcasting of one axis: equal lengths, or one of them is 1.\<close>

definition bcast :: "nat \<Rightarrow> nat \<Rightarrow> nat option" where
  "bcast m n =
     (if m = n then Some m else if m = 1 then Some n else if n = 1 then Some m else None)"

definition bget :: "'a list list \<Rightarrow> nat \<Rightarrow> nat \<Rightarrow> 'a" where
  "bget a m i = a ! (if length a = 1 then 0 else m) ! (if ncols a = 1 then 0 else i)"

text \<open>
  \<^verbatim>\<open>re + im*1j\<close> for two real arrays with two axes, given by rows: the shapes are
  broadcast, a mismatch raises \<^verbatim>\<open>ValueError\<close>.
\<close>

definition add_complex2 :: "table \<Rightarrow> table \<Rightarrow> error + carray2" where
  "add_complex2 re im =
     (case bcast (length re) (length im) of
        None \<Rightarrow> Inl ValueError
      | Some r \<Rightarrow>
          (case bcast (ncols re) (ncols im) of
             None \<Rightarrow> Inl ValueError
           | Some k \<Rightarrow>
               Inr (map (\<lambda>m. map (\<lambda>i. complex_of_real (bget re m i)
                                        + complex_of_real (bget im m i) * \<i>) [0..<k])
                        [0..<r])))"

text \<open>A loop whose body may raise: the first error ends it.\<close>

fun foldE :: "('a \<Rightarrow> 's \<Rightarrow> error + 's) \<Rightarrow> 'a list \<Rightarrow> 's \<Rightarrow> error + 's" where
  "foldE f [] s = Inr s"
| "foldE f (x # xs) s = (case f x s of Inl e \<Rightarrow> Inl e | Inr s' \<Rightarrow> foldE f xs s')"

subsection \<open>The PDOS reader\<close>

text \<open>The loop body \<^verbatim>\<open>p[i, :] = tmp[:, k + i]/eV\<close>.\<close>

definition pdos_row :: "real \<Rightarrow> table \<Rightarrow> nat \<Rightarrow> nat \<Rightarrow> table \<Rightarrow> error + table" where
  "pdos_row eV tmp k i p =
     (case column (k + i) tmp of
        Inl e \<Rightarrow> Inl e
      | Inr c \<Rightarrow> Inr (p[i := map (\<lambda>x. x / eV) c]))"

definition pdos :: "real \<Rightarrow> table \<Rightarrow> nat \<Rightarrow> bool \<Rightarrow> error + (real list \<times> table)" where
  "pdos eV filename norb spinpol =
     (let nc = (if spinpol then 2 * norb else norb) in
      case loadtxt (Some filename) of
        Inl e \<Rightarrow> Inl e
      | Inr tmp \<Rightarrow>
          if \<not> is2d tmp then Inl IndexError
          else
            let w = map (\<lambda>r. eV * r ! 0) tmp;
                p = replicate nc (replicate (length w) 0);
                k = (if spinpol then 7 else 2)
            in case foldE (pdos_row eV tmp k) [0..<nc] p of
                 Inl e \<Rightarrow> Inl e
               | Inr p' \<Rightarrow> Inr (w, p'))"

subsection \<open>The sparsity mask in the log file\<close>

definition search_phrase :: string where
  "search_phrase = ''dumpdata: Mask of the printed off-diagonal elements:''"

text \<open>
  The search phrase has no character that is special in a basic regular expression, so
  \<^verbatim>\<open>grep\<close> selects the lines that contain it.
\<close>

fun contains :: "string \<Rightarrow> string \<Rightarrow> bool" where
  "contains p [] = (p = [])"
| "contains p (c # cs) = (take (length p) (c # cs) = p \<or> contains p cs)"

text \<open>
  \<^verbatim>\<open>grep -A n 'phrase' file\<close>: every selected line and the \<open>n\<close> lines after it; groups
  of printed lines that are not adjacent in the file are separated by a line \<^verbatim>\<open>--\<close>.
  The arguments of the scan are the context lines still to print, whether a line has
  been printed, and whether the line before was skipped.
\<close>

fun grep_scan :: "nat \<Rightarrow> string \<Rightarrow> nat \<Rightarrow> bool \<Rightarrow> bool \<Rightarrow> string list \<Rightarrow> string list" where
  "grep_scan n p ctx printed gap [] = []"
| "grep_scan n p ctx printed gap (l # ls) =
     (if contains p l then
        (if printed \<and> gap then [''--''] else []) @ l # grep_scan n p n True False ls
      else if 0 < ctx then l # grep_scan n p (ctx - 1) printed False ls
      else grep_scan n p 0 printed True ls)"

definition grep_A :: "nat \<Rightarrow> string \<Rightarrow> string list \<Rightarrow> string list" where
  "grep_A n p ls = grep_scan n p 0 False False ls"

text \<open>
  The command \<^verbatim>\<open>grep -A 2*norb 'phrase' outfile | head -(2*norb+1) | tail -(2*norb)\<close>
  run by the shell: its standard output and its exit status. The exit status of a
  pipeline is the status of its last command, here \<^verbatim>\<open>tail\<close>, which reads its standard
  input and succeeds whatever \<^verbatim>\<open>grep\<close> found.
\<close>

definition tail_lines :: "nat \<Rightarrow> string list \<Rightarrow> string list" where
  "tail_lines n ls = drop (length ls - n) ls"

definition mask_cmd :: "nat \<Rightarrow> string list \<Rightarrow> nat \<times> string list" where
  "mask_cmd norb outfile =
     (0, tail_lines (2 * norb) (take (2 * norb + 1) (grep_A (2 * norb) search_phrase outfile)))"

text \<open>\<^verbatim>\<open>subprocess.check_output\<close> raises when the exit status is not zero.\<close>

definition check_output :: "nat \<times> string list \<Rightarrow> error + string list" where
  "check_output r = (if fst r \<noteq> 0 then Inl CalledProcessError else Inr (snd r))"

text \<open>\<^verbatim>\<open>string.split()\<close>: the maximal runs of characters that are not white space.\<close>

definition is_space :: "char \<Rightarrow> bool" where
  "is_space c \<longleftrightarrow> c \<in> set [CHR '' '', CHR 0x09, CHR 0x0A, CHR 0x0B, CHR 0x0C, CHR 0x0D]"

fun split_acc :: "string \<Rightarrow> string \<Rightarrow> string list" where
  "split_acc acc [] = (if acc = [] then [] else [rev acc])"
| "split_acc acc (c # cs) =
     (if is_space c then (if acc = [] then [] else [rev acc]) @ split_acc [] cs
      else split_acc (c # acc) cs)"

definition split :: "string \<Rightarrow> string list" where
  "split s = split_acc [] s"

text \<open>
  \<^verbatim>\<open>np.array(tokens, dtype=np.int)\<close>: every token must be an integer literal (an optional
  sign and decimal digits), anything else raises \<^verbatim>\<open>ValueError\<close>.
\<close>

definition parse_nat :: "string \<Rightarrow> nat option" where
  "parse_nat s =
     (if s \<noteq> [] \<and> (\<forall>c \<in> set s. c \<in> set ''0123456789'')
      then Some (foldl (\<lambda>a c. 10 * a + (of_char c - 48)) 0 s) else None)"

definition parse_int :: "string \<Rightarrow> int option" where
  "parse_int s =
     (case s of
        [] \<Rightarrow> None
      | c # cs \<Rightarrow>
          if c = CHR ''-'' then map_option (\<lambda>n. - int n) (parse_nat cs)
          else if c = CHR ''+'' then map_option int (parse_nat cs)
          else map_option int (parse_nat s))"

definition int_array :: "string list \<Rightarrow> error + int list" where
  "int_array ts = (case those (map parse_int ts) of None \<Rightarrow> Inl ValueError | Some v \<Rightarrow> Inr v)"

text \<open>\<^verbatim>\<open>v.reshape(r, c)\<close> raises \<^verbatim>\<open>ValueError\<close> unless \<open>v\<close> has \<open>r * c\<close> elements.\<close>

definition reshape :: "nat \<Rightarrow> nat \<Rightarrow> 'a list \<Rightarrow> error + 'a list list" where
  "reshape r c v =
     (if length v = r * c then Inr (map (\<lambda>i. take c (drop (i * c) v)) [0..<r])
      else Inl ValueError)"

text \<open>
  Lines 58 to 71 of \<open>hyb\<close>: the mask is read from the output of the command, compared
  with 1, and cut to its top-left block when there is no spin polarisation. The handler
  of \<^verbatim>\<open>CalledProcessError\<close> calls \<^verbatim>\<open>sys.error\<close>, which the module \<^verbatim>\<open>sys\<close> does not
  have: that raises \<^verbatim>\<open>AttributeError\<close>.
\<close>

definition read_mask :: "nat \<Rightarrow> bool \<Rightarrow> string list \<Rightarrow> error + bool list list" where
  "read_mask norb spinpol outfile =
     (case check_output (mask_cmd norb outfile) of
        Inl e \<Rightarrow> Inl AttributeError
      | Inr out \<Rightarrow>
          (case int_array (concat (map split out)) of
             Inl e \<Rightarrow> Inl e
           | Inr v \<Rightarrow>
               (case reshape (2 * norb) (2 * norb) v of
                  Inl e \<Rightarrow> Inl e
                | Inr m \<Rightarrow>
                    (let msk = map (map (\<lambda>x. x = 1)) m
                     in Inr (if \<not> spinpol then map (take norb) (take norb msk) else msk)))))"

subsection \<open>The hybridization reader\<close>

datatype hyb_result = Diagonal carray2 | Full carray3

definition zeros3 :: "nat \<Rightarrow> nat \<Rightarrow> carray3" where
  "zeros3 nc nw = replicate nc (replicate nc (replicate nw 0))"

text \<open>The loop body \<^verbatim>\<open>h[i, i, :] = h_diagonal[i, :]\<close>.\<close>

definition set_diagonal :: "carray2 \<Rightarrow> nat \<Rightarrow> carray3 \<Rightarrow> error + carray3" where
  "set_diagonal d i h =
     (if i < length d then Inr (h[i := (h ! i)[i := d ! i]]) else Inl IndexError)"

text \<open>
  The body of the inner loop, lines 81 to 83: the state is the array \<open>h\<close> and the
  counter \<open>n\<close>. The two columns and the cell have at least two entries each, so the sum
  and the update in place need equal lengths.
\<close>

definition add_off ::
  "table \<Rightarrow> table \<Rightarrow> bool list list \<Rightarrow> nat \<Rightarrow> nat \<Rightarrow> carray3 \<times> nat \<Rightarrow> error + carray3 \<times> nat" where
  "add_off re im msk j i s =
     (case s of (h, n) \<Rightarrow>
        if msk ! i ! j then
          (case column n re of
             Inl e \<Rightarrow> Inl e
           | Inr a \<Rightarrow>
               (case column n im of
                  Inl e \<Rightarrow> Inl e
                | Inr b \<Rightarrow>
                    if length a \<noteq> length b \<or> length a \<noteq> length (h ! i ! j) then Inl ValueError
                    else Inr (h[i := (h ! i)[j := map2 (+) (h ! i ! j)
                                 (map2 (\<lambda>x y. complex_of_real x + complex_of_real y * \<i>) a b)]],
                              n + 1)))
        else Inr (h, n))"

definition fill_off ::
  "table \<Rightarrow> table \<Rightarrow> bool list list \<Rightarrow> nat \<Rightarrow> carray3 \<Rightarrow> error + carray3 \<times> nat" where
  "fill_off re im msk nc h =
     foldE (\<lambda>j. foldE (add_off re im msk j) [0..<nc]) [0..<nc] (h, 0)"

text \<open>Lines 55 to 99: the branch that reads the off-diagonal functions.\<close>

definition hyb_off ::
  "real \<Rightarrow> nat \<Rightarrow> nat \<Rightarrow> bool \<Rightarrow> real list \<Rightarrow> carray2 \<Rightarrow> table option \<Rightarrow> table option
     \<Rightarrow> string list \<Rightarrow> error + (real list \<times> hyb_result)" where
  "hyb_off eV nc norb spinpol w h_diagonal file_re_off file_im_off outfile =
     (case loadtxt file_re_off of
        Inl e \<Rightarrow> Inl e
      | Inr ro \<Rightarrow>
          if \<not> is2d ro then Inl IndexError
          else
            (case loadtxt file_im_off of
               Inl e \<Rightarrow> Inl e
             | Inr io \<Rightarrow>
                 if \<not> is2d io then Inl IndexError
                 else
                   (case read_mask norb spinpol outfile of
                      Inl e \<Rightarrow> Inl e
                    | Inr msk \<Rightarrow>
                        (case foldE (set_diagonal h_diagonal) [0..<nc] (zeros3 nc (length w)) of
                           Inl e \<Rightarrow> Inl e
                         | Inr h \<Rightarrow>
                             (case fill_off (scale eV (cols_from 1 ro)) (scale eV (cols_from 1 io))
                                     msk nc h of
                                Inl e \<Rightarrow> Inl e
                              | Inr hn \<Rightarrow> Inr (w, Full (fst hn)))))))"

text \<open>
  \<open>hyb\<close>. The source transposes the two slices before it adds them; here they are added
  by rows and the sum is transposed, which keeps the shape known when no column is left.
\<close>

definition hyb ::
  "real \<Rightarrow> table \<Rightarrow> table \<Rightarrow> nat \<Rightarrow> bool \<Rightarrow> table option \<Rightarrow> table option
     \<Rightarrow> string list option \<Rightarrow> bool \<Rightarrow> error + (real list \<times> hyb_result)" where
  "hyb eV file_re file_im norb spinpol file_re_off file_im_off outfile return_as_full_matrix =
     (let nc = (if spinpol then 2 * norb else norb) in
      case loadtxt (Some file_re) of
        Inl e \<Rightarrow> Inl e
      | Inr re \<Rightarrow>
          (case loadtxt (Some file_im) of
             Inl e \<Rightarrow> Inl e
           | Inr im \<Rightarrow>
               if \<not> is2d re then Inl IndexError
               else
                 let w = map (\<lambda>r. eV * r ! 0) re in
                 if \<not> is2d im then Inl IndexError
                 else
                   (case add_complex2 (scale eV (slice_cols 4 (4 + nc) re))
                                      (scale eV (slice_cols 4 (4 + nc) im)) of
                      Inl e \<Rightarrow> Inl e
                    | Inr s \<Rightarrow>
                        let h_diagonal = transpose_arr s in
                        if file_re_off = None \<and> file_im_off = None \<and> outfile = None then
                          (if return_as_full_matrix then
                             (case foldE (set_diagonal h_diagonal) [0..<nc]
                                     (zeros3 nc (length w)) of
                                Inl e \<Rightarrow> Inl e
                              | Inr h \<Rightarrow> Inr (w, Full h))
                           else Inr (w, Diagonal h_diagonal))
                        else if file_re_off \<noteq> None \<and> file_im_off \<noteq> None \<and> outfile \<noteq> None then
                          hyb_off eV nc norb spinpol w h_diagonal file_re_off file_im_off
                            (the outfile)
                        else Inl (SystemExit ''Wrong input parameters.''))))"

subsection \<open>The self-energy reader\<close>

definition self_energy ::
  "real \<Rightarrow> table \<Rightarrow> table \<Rightarrow> bool \<Rightarrow> table option \<Rightarrow> table option
     \<Rightarrow> error + (real list \<times> carray2 \<times> carray3)" where
  "self_energy eV file_re file_im spinpol file_re_off file_im_off =
     (case loadtxt (Some file_re) of
        Inl e \<Rightarrow> Inl e
      | Inr re \<Rightarrow>
          (case loadtxt (Some file_im) of
             Inl e \<Rightarrow> Inl e
           | Inr im \<Rightarrow>
               if \<not> is2d re then Inl IndexError
               else if \<not> is2d im then Inl IndexError
               else
                 (case add_complex2 (cols_from 4 re) (cols_from 4 im) of
                    Inl e \<Rightarrow> Inl e
                  | Inr s \<Rightarrow>
                      let w = map (\<lambda>r. eV * r ! 0) re;
                          sig_diagonal = transpose_arr (map (map (\<lambda>z. complex_of_real eV * z)) s);
                          nc = ncols s;
                          nw = length s;
                          norb = (if spinpol then nc div 2 else nc)
                      in
                        (case loadtxt file_re_off of
                           Inl e \<Rightarrow> Inl e
                         | Inr ro \<Rightarrow>
                             if \<not> is2d ro then Inl IndexError
                             else
                               (case loadtxt file_im_off of
                                  Inl e \<Rightarrow> Inl e
                                | Inr io \<Rightarrow>
                                    if \<not> is2d io then Inl IndexError
                                    else
                                      (case foldE (set_diagonal sig_diagonal) [0..<nc]
                                              (zeros3 nc nw) of
                                         Inl e \<Rightarrow> Inl e
                                       | Inr sig \<Rightarrow>
                                           Inl (SystemExit ''Implementation not complete...'')))))))"

subsection \<open>Well-formed inputs\<close>

text \<open>
  A table with at least two rows, all of the same length. The diagonal input of \<open>hyb\<close> is
  a pair of such tables with the same number of rows and at least \<open>4 + nc\<close> columns.
\<close>

definition table_ok :: "table \<Rightarrow> bool" where
  "table_ok a \<longleftrightarrow> 2 \<le> length a \<and> (\<forall>r \<in> set a. length r = ncols a)"

definition diag_ok :: "nat \<Rightarrow> table \<Rightarrow> table \<Rightarrow> bool" where
  "diag_ok nc re im \<longleftrightarrow>
     table_ok re \<and> table_ok im \<and> length re = length im \<and> 4 + nc \<le> ncols re \<and> 4 + nc \<le> ncols im"

subsection \<open>The order of the off-diagonal scan\<close>

text \<open>
  The cells \<open>(i, j)\<close> in the order in which lines 79 and 80 visit them: the outer loop
  runs over the columns \<open>j\<close>, the inner loop over the rows \<open>i\<close>. The rank of a cell
  is the number of true cells of the mask visited before it, and \<open>count_true\<close> is the
  number of true cells of the mask.
\<close>

definition off_cell :: "bool list list \<Rightarrow> nat \<times> nat \<Rightarrow> bool" where
  "off_cell msk p = msk ! fst p ! snd p"

definition positions :: "nat \<Rightarrow> (nat \<times> nat) list" where
  "positions nc = concat (map (\<lambda>j. map (\<lambda>i. (i, j)) [0..<nc]) [0..<nc])"

definition rank_in :: "bool list list \<Rightarrow> (nat \<times> nat) list \<Rightarrow> nat \<times> nat \<Rightarrow> nat" where
  "rank_in msk ps q = length (filter (off_cell msk) (takeWhile (\<lambda>p. p \<noteq> q) ps))"

definition count_true :: "bool list list \<Rightarrow> nat \<Rightarrow> nat" where
  "count_true msk nc = length (filter (off_cell msk) (positions nc))"

subsection \<open>What the readers return on well-formed input\<close>

text \<open>
  The diagonal table of \<open>hyb\<close>: row \<open>i\<close> holds, for every mesh point \<open>m\<close>, the scaled
  entries of column \<open>4 + i\<close> of the real and of the imaginary table. The full matrix
  with that diagonal and zeros elsewhere. A call of \<open>hyb\<close> is partial when it is given one
  or two of its three optional files.
\<close>

definition diag_table :: "real \<Rightarrow> nat \<Rightarrow> table \<Rightarrow> table \<Rightarrow> carray2" where
  "diag_table eV nc re im =
     map (\<lambda>i. map (\<lambda>m. complex_of_real (eV * re ! m ! (4 + i))
                       + complex_of_real (eV * im ! m ! (4 + i)) * \<i>) [0..<length re])
         [0..<nc]"

definition diag_matrix :: "nat \<Rightarrow> nat \<Rightarrow> carray2 \<Rightarrow> carray3" where
  "diag_matrix nc nw d =
     map (\<lambda>i. map (\<lambda>j. if i = j then d ! i else replicate nw 0) [0..<nc]) [0..<nc]"

definition partial_off :: "table option \<Rightarrow> table option \<Rightarrow> string list option \<Rightarrow> bool" where
  "partial_off file_re_off file_im_off outfile \<longleftrightarrow>
     length (filter (\<lambda>b. b) [file_re_off \<noteq> None, file_im_off \<noteq> None, outfile \<noteq> None]) \<in> {1, 2}"

text \<open>
  A table that \<^verbatim>\<open>np.loadtxt\<close> returns with two axes: at least two rows, all of the
  same length, and at least two columns. \<open>diag_reads\<close> is the input on which \<open>hyb\<close>
  gets past line 43: both diagonal tables have two axes, they have the same number of
  rows, and the numbers of columns that the slice \<^verbatim>\<open>[:, 4:4+nc]\<close> keeps of them can be
  broadcast. \<open>se_reads\<close> is the input on which \<open>self_energy\<close> gets past line 133: the
  same for the slice \<^verbatim>\<open>[:, 4:]\<close>, and both off-diagonal tables have two axes.
\<close>

definition reads2d :: "table \<Rightarrow> bool" where
  "reads2d a \<longleftrightarrow> table_ok a \<and> 2 \<le> ncols a"

definition diag_reads :: "nat \<Rightarrow> table \<Rightarrow> table \<Rightarrow> bool" where
  "diag_reads nc re im \<longleftrightarrow>
     reads2d re \<and> reads2d im \<and> length re = length im
     \<and> bcast (min (ncols re) (4 + nc) - 4) (min (ncols im) (4 + nc) - 4) \<noteq> None"

definition se_reads :: "table \<Rightarrow> table \<Rightarrow> table \<Rightarrow> table \<Rightarrow> bool" where
  "se_reads re im ro io \<longleftrightarrow>
     reads2d re \<and> reads2d im \<and> length re = length im
     \<and> bcast (ncols re - 4) (ncols im - 4) \<noteq> None
     \<and> reads2d ro \<and> reads2d io"

text \<open>
  The reading of the mask as claim C3 words it, for comparison with \<open>read_mask\<close>: the
  \<open>nc\<close> lines after the first line with the phrase are parsed into an \<open>nc\<close> by \<open>nc\<close>
  matrix, with \<open>nc = 2 * norb\<close> under spin polarisation and \<open>nc = norb\<close> without, and
  without spin polarisation the top-left block is taken.
\<close>

definition read_mask_as_claimed :: "nat \<Rightarrow> bool \<Rightarrow> string list \<Rightarrow> error + bool list list" where
  "read_mask_as_claimed norb spinpol outfile =
     (let nc = (if spinpol then 2 * norb else norb);
          ls = take nc (drop 1 (dropWhile (\<lambda>l. \<not> contains search_phrase l) outfile))
      in case int_array (concat (map split ls)) of
           Inl e \<Rightarrow> Inl e
         | Inr v \<Rightarrow>
             (case reshape nc nc v of
                Inl e \<Rightarrow> Inl e
              | Inr m \<Rightarrow>
                  (let msk = map (map (\<lambda>x. x = 1)) m
                   in Inr (if \<not> spinpol then map (take norb) (take norb msk) else msk))))"

text \<open>
  Well-formed off-diagonal input for a mesh of \<open>nw\<close> points and a mask with \<open>t\<close> true
  cells: two tables of \<open>nw\<close> rows with the mesh column and at least \<open>t\<close> data columns.
  \<open>off_column\<close> is data column \<open>k\<close> of the two tables as line 82 combines it, the
  mesh column skipped.
\<close>

definition off_ok :: "nat \<Rightarrow> nat \<Rightarrow> table \<Rightarrow> table \<Rightarrow> bool" where
  "off_ok nw t ro io \<longleftrightarrow>
     table_ok ro \<and> table_ok io \<and> length ro = nw \<and> length io = nw
     \<and> 2 \<le> ncols ro \<and> 2 \<le> ncols io \<and> t < ncols ro \<and> t < ncols io"

definition off_column :: "real \<Rightarrow> table \<Rightarrow> table \<Rightarrow> nat \<Rightarrow> complex list" where
  "off_column eV ro io k =
     map (\<lambda>m. complex_of_real (eV * ro ! m ! Suc k) + complex_of_real (eV * io ! m ! Suc k) * \<i>)
       [0..<length ro]"
text \<open>
  Off-diagonal input that is well formed but for the number of its columns: one of the
  two tables has fewer than \<open>t\<close> data columns beside its mesh column.
\<close>

definition off_short :: "nat \<Rightarrow> nat \<Rightarrow> table \<Rightarrow> table \<Rightarrow> bool" where
  "off_short nw t ro io \<longleftrightarrow>
     table_ok ro \<and> table_ok io \<and> length ro = nw \<and> length io = nw
     \<and> 2 \<le> ncols ro \<and> 2 \<le> ncols io \<and> (ncols ro \<le> t \<or> ncols io \<le> t)"

section \<open>Properties\<close>

subsection \<open>Loops and tables\<close>

lemma foldE_append:
  "foldE f (xs @ ys) s = (case foldE f xs s of Inl e \<Rightarrow> Inl e | Inr s' \<Rightarrow> foldE f ys s')"
  by (induction xs arbitrary: s) (auto split: sum.splits)

lemma table_ok_is2d: "table_ok a \<Longrightarrow> 2 \<le> ncols a \<Longrightarrow> is2d a"
  by (cases a) (auto simp: table_ok_def is2d_def ncols_def)

lemma table_ok_loadtxt: "table_ok a \<Longrightarrow> loadtxt (Some a) = Inr a"
  by (cases a) (auto simp: table_ok_def loadtxt_def ncols_def)

subsection \<open>The PDOS reader\<close>

lemma pdos_loop:
  "n \<le> length p \<Longrightarrow> k + n \<le> ncols tmp \<Longrightarrow>
   foldE (pdos_row eV tmp k) [0..<n] p =
     Inr (map (\<lambda>i. if i < n then map (\<lambda>r. r ! (k + i) / eV) tmp else p ! i) [0..<length p])"
proof (induction n)
  case 0
  then show ?case by (simp add: map_nth)
next
  case (Suc n)
  have c: "column (k + n) tmp = Inr (map (\<lambda>r. r ! (k + n)) tmp)"
    using Suc.prems by (simp add: column_def)
  show ?case
    using Suc
    by (auto simp: foldE_append pdos_row_def c o_def intro!: nth_equalityI simp: nth_list_update)
qed

text \<open>
  C8, as stated for every PDOS input, fails. \<^verbatim>\<open>np.loadtxt\<close> returns a table of one
  row with one axis, and \<^verbatim>\<open>tmp[:, 0]\<close> raises \<^verbatim>\<open>IndexError\<close>, here on the scenario's
  nine columns; on two rows of eight columns \<^verbatim>\<open>tmp[:, 8]\<close> is out of range.
\<close>

theorem pdos_values_counterexample:
  "pdos 2 [[1, 0, 0, 0, 0, 0, 0, 3, 5]] 1 True = Inl IndexError
   \<and> pdos 2 [[1, 0, 0, 0, 0, 0, 0, 3], [2, 0, 0, 0, 0, 0, 0, 4]] 1 True = Inl IndexError"
  by (simp add: pdos_def loadtxt_def is2d_def pdos_row_def column_def ncols_def upt_rec Let_def)

text \<open>
  C8, amended. For a unit constant that is not zero and a PDOS table with at least two
  rows, all of the same length, and at least \<open>k + nc\<close> columns, where
  \<open>k\<close> is 7 with spin polarisation and 2 without and \<open>nc\<close> is \<open>2 * norb\<close> with spin
  polarisation and \<open>norb\<close> without, \<open>pdos\<close> returns the mesh \<open>eV\<close> times column 0 and,
  for every spin-orbital \<open>i < nc\<close>, column \<open>k + i\<close> divided by \<open>eV\<close>: the mesh is
  multiplied by the unit constant and the densities are divided by it.
\<close>

theorem pdos_values:
  assumes "table_ok tmp"
    and "(if spinpol then 7 else 2) + (if spinpol then 2 * norb else norb) \<le> ncols tmp"
    and "eV \<noteq> 0"
  shows "pdos eV tmp norb spinpol =
     Inr (map (\<lambda>r. eV * r ! 0) tmp,
          map (\<lambda>i. map (\<lambda>r. r ! ((if spinpol then 7 else 2) + i) / eV) tmp)
              [0..<(if spinpol then 2 * norb else norb)])"
proof -
  have "2 \<le> ncols tmp" using assms(2) by (auto split: if_splits)
  then have d: "is2d tmp" using assms(1) by (rule table_ok_is2d[rotated])
  show ?thesis
    using assms(2)
    by (simp add: pdos_def table_ok_loadtxt[OF assms(1)] d pdos_loop Let_def)
qed

text \<open>
  The scenario of the specification: spin polarisation, one orbital, seven leading
  columns; columns 7 and 8 are the two densities, each divided by \<open>eV\<close> (here 2).
\<close>

theorem pdos_values_witness:
  "pdos 2 [[1, 0, 0, 0, 0, 0, 0, 3, 5], [2, 0, 0, 0, 0, 0, 0, 4, 6]] 1 True =
     Inr ([2, 4], [[3 / 2, 2], [5 / 2, 3]])"
  using pdos_values [of "[[1, 0, 0, 0, 0, 0, 0, 3, 5], [2, 0, 0, 0, 0, 0, 0, 4, 6]]" True 1 2]
  by (simp add: table_ok_def ncols_def upt_rec)

subsection \<open>The off-diagonal fill\<close>

lemma foldE_map: "foldE f (map g xs) s = foldE (\<lambda>x. f (g x)) xs s"
  by (induction xs arbitrary: s) (auto split: sum.splits)

lemma fill_off_flat:
  "foldE (\<lambda>j. foldE (add_off re im msk j) [0..<nc]) js s =
   foldE (\<lambda>p. add_off re im msk (snd p) (fst p)) (concat (map (\<lambda>j. map (\<lambda>i. (i, j)) [0..<nc]) js)) s"
  by (induction js arbitrary: s) (auto simp: foldE_append foldE_map split: sum.splits)

lemma add_off_false: "\<not> off_cell msk p \<Longrightarrow> add_off re im msk (snd p) (fst p) (h, n) = Inr (h, n)"
  by (simp add: add_off_def off_cell_def)

lemma add_off_true:
  assumes "off_cell msk p" "column n re = Inr a" "column n im = Inr b"
    "length a = nw" "length b = nw" "length (h ! fst p ! snd p) = nw"
  shows "add_off re im msk (snd p) (fst p) (h, n) =
     Inr (h[fst p := (h ! fst p)[snd p := map2 (+) (h ! fst p ! snd p)
            (map2 (\<lambda>x y. complex_of_real x + complex_of_real y * \<i>) a b)]], Suc n)"
  using assms by (simp add: add_off_def off_cell_def)

lemma fill_flat_inv:
  assumes "distinct ps"
    and "\<forall>p \<in> set ps. fst p < length h \<and> snd p < length (h ! fst p)
           \<and> length (h ! fst p ! snd p) = nw"
    and "\<forall>k < n + length (filter (off_cell msk) ps).
           column k re = Inr (A k) \<and> column k im = Inr (B k)
           \<and> length (A k) = nw \<and> length (B k) = nw"
  shows "\<exists>h'. foldE (\<lambda>p. add_off re im msk (snd p) (fst p)) ps (h, n)
              = Inr (h', n + length (filter (off_cell msk) ps))
          \<and> length h' = length h
          \<and> (\<forall>i. length (h' ! i) = length (h ! i))
          \<and> (\<forall>i j. i < length h \<longrightarrow> j < length (h ! i) \<longrightarrow>
                h' ! i ! j =
                  (if (i, j) \<in> set ps \<and> off_cell msk (i, j)
                   then map2 (+) (h ! i ! j)
                          (map2 (\<lambda>x y. complex_of_real x + complex_of_real y * \<i>)
                             (A (n + rank_in msk ps (i, j))) (B (n + rank_in msk ps (i, j))))
                   else h ! i ! j))"
  using assms
proof (induction ps arbitrary: h n)
  case Nil
  then show ?case by simp
next
  case (Cons p ps)
  show ?case
  proof (cases "off_cell msk p")
    case False
    have step: "add_off re im msk (snd p) (fst p) (h, n) = Inr (h, n)"
      using False by (rule add_off_false)
    have "\<exists>h'. foldE (\<lambda>p. add_off re im msk (snd p) (fst p)) ps (h, n)
              = Inr (h', n + length (filter (off_cell msk) ps))
          \<and> length h' = length h
          \<and> (\<forall>i. length (h' ! i) = length (h ! i))
          \<and> (\<forall>i j. i < length h \<longrightarrow> j < length (h ! i) \<longrightarrow>
                h' ! i ! j =
                  (if (i, j) \<in> set ps \<and> off_cell msk (i, j)
                   then map2 (+) (h ! i ! j)
                          (map2 (\<lambda>x y. complex_of_real x + complex_of_real y * \<i>)
                             (A (n + rank_in msk ps (i, j))) (B (n + rank_in msk ps (i, j))))
                   else h ! i ! j))"
      using Cons.prems False by (intro Cons.IH) auto
    then obtain h' where h': "foldE (\<lambda>p. add_off re im msk (snd p) (fst p)) ps (h, n)
              = Inr (h', n + length (filter (off_cell msk) ps))"
      "length h' = length h" "\<forall>i. length (h' ! i) = length (h ! i)"
      "\<forall>i j. i < length h \<longrightarrow> j < length (h ! i) \<longrightarrow>
                h' ! i ! j =
                  (if (i, j) \<in> set ps \<and> off_cell msk (i, j)
                   then map2 (+) (h ! i ! j)
                          (map2 (\<lambda>x y. complex_of_real x + complex_of_real y * \<i>)
                             (A (n + rank_in msk ps (i, j))) (B (n + rank_in msk ps (i, j))))
                   else h ! i ! j)"
      by blast
    have rk: "\<And>q. q \<in> set ps \<Longrightarrow> rank_in msk (p # ps) q = rank_in msk ps q"
      using Cons.prems(1) False by (auto simp: rank_in_def)
    show ?thesis
      apply (rule exI[of _ h'])
      using h' False step rk by (auto)
  next
    case True
    let ?c = "map2 (\<lambda>x y. complex_of_real x + complex_of_real y * \<i>) (A n) (B n)"
    let ?h1 = "h[fst p := (h ! fst p)[snd p := map2 (+) (h ! fst p ! snd p) ?c]]"
    have cols: "column n re = Inr (A n)" "column n im = Inr (B n)" "length (A n) = nw" "length (B n) = nw"
      using Cons.prems(3) True by auto
    have pin: "fst p < length h" "snd p < length (h ! fst p)" "length (h ! fst p ! snd p) = nw"
      using Cons.prems(2) by auto
    have step: "add_off re im msk (snd p) (fst p) (h, n) = Inr (?h1, Suc n)"
      using True cols pin(3) by (rule add_off_true)
    have shape1: "length ?h1 = length h" "\<And>i. length (?h1 ! i) = length (h ! i)"
    proof -
      show "length ?h1 = length h" by simp
      fix i show "length (?h1 ! i) = length (h ! i)"
        using pin(1) by (cases "i = fst p") simp_all
    qed
    have cell1: "\<And>i j. i < length h \<Longrightarrow> j < length (h ! i) \<Longrightarrow>
        ?h1 ! i ! j = (if (i, j) = p then map2 (+) (h ! i ! j) ?c else h ! i ! j)"
      using pin by (cases p) (auto simp: nth_list_update)
    have pre2: "\<forall>q \<in> set ps. fst q < length ?h1 \<and> snd q < length (?h1 ! fst q)
           \<and> length (?h1 ! fst q ! snd q) = nw"
    proof
      fix q assume q: "q \<in> set ps"
      then have qq: "fst q < length h" "snd q < length (h ! fst q)" "length (h ! fst q ! snd q) = nw"
        using Cons.prems(2) by auto
      have "q \<noteq> p" using q Cons.prems(1) by auto
      then have "?h1 ! fst q ! snd q = h ! fst q ! snd q"
        using cell1[OF qq(1) qq(2)] by (cases q) auto
      then show "fst q < length ?h1 \<and> snd q < length (?h1 ! fst q)
           \<and> length (?h1 ! fst q ! snd q) = nw"
        using qq shape1 by simp
    qed
    have pre3: "\<forall>k < Suc n + length (filter (off_cell msk) ps).
           column k re = Inr (A k) \<and> column k im = Inr (B k)
           \<and> length (A k) = nw \<and> length (B k) = nw"
      using Cons.prems(3) True by simp
    have "\<exists>h'. foldE (\<lambda>p. add_off re im msk (snd p) (fst p)) ps (?h1, Suc n)
              = Inr (h', Suc n + length (filter (off_cell msk) ps))
          \<and> length h' = length ?h1
          \<and> (\<forall>i. length (h' ! i) = length (?h1 ! i))
          \<and> (\<forall>i j. i < length ?h1 \<longrightarrow> j < length (?h1 ! i) \<longrightarrow>
                h' ! i ! j =
                  (if (i, j) \<in> set ps \<and> off_cell msk (i, j)
                   then map2 (+) (?h1 ! i ! j)
                          (map2 (\<lambda>x y. complex_of_real x + complex_of_real y * \<i>)
                             (A (Suc n + rank_in msk ps (i, j))) (B (Suc n + rank_in msk ps (i, j))))
                   else ?h1 ! i ! j))"
      using Cons.prems(1) pre2 pre3 by (intro Cons.IH) auto
    then obtain h' where h': "foldE (\<lambda>p. add_off re im msk (snd p) (fst p)) ps (?h1, Suc n)
              = Inr (h', Suc n + length (filter (off_cell msk) ps))"
      "length h' = length ?h1" "\<forall>i. length (h' ! i) = length (?h1 ! i)"
      "\<forall>i j. i < length ?h1 \<longrightarrow> j < length (?h1 ! i) \<longrightarrow>
                h' ! i ! j =
                  (if (i, j) \<in> set ps \<and> off_cell msk (i, j)
                   then map2 (+) (?h1 ! i ! j)
                          (map2 (\<lambda>x y. complex_of_real x + complex_of_real y * \<i>)
                             (A (Suc n + rank_in msk ps (i, j))) (B (Suc n + rank_in msk ps (i, j))))
                   else ?h1 ! i ! j)"
      by blast
    have rk: "\<And>q. q \<in> set ps \<Longrightarrow> rank_in msk (p # ps) q = Suc (rank_in msk ps q)"
      using Cons.prems(1) True by (auto simp: rank_in_def)
    have rk0: "rank_in msk (p # ps) p = 0" by (simp add: rank_in_def)
    have notin: "p \<notin> set ps" using Cons.prems(1) by simp
    have cells: "\<And>i j. i < length h \<Longrightarrow> j < length (h ! i) \<Longrightarrow>
                h' ! i ! j =
                  (if (i, j) \<in> set (p # ps) \<and> off_cell msk (i, j)
                   then map2 (+) (h ! i ! j)
                          (map2 (\<lambda>x y. complex_of_real x + complex_of_real y * \<i>)
                             (A (n + rank_in msk (p # ps) (i, j))) (B (n + rank_in msk (p # ps) (i, j))))
                   else h ! i ! j)"
    proof -
      fix i j assume ij: "i < length h" "j < length (h ! i)"
      have a: "h' ! i ! j =
                  (if (i, j) \<in> set ps \<and> off_cell msk (i, j)
                   then map2 (+) (?h1 ! i ! j)
                          (map2 (\<lambda>x y. complex_of_real x + complex_of_real y * \<i>)
                             (A (Suc n + rank_in msk ps (i, j))) (B (Suc n + rank_in msk ps (i, j))))
                   else ?h1 ! i ! j)"
        using h'(4) ij shape1 by simp
      show "h' ! i ! j =
                  (if (i, j) \<in> set (p # ps) \<and> off_cell msk (i, j)
                   then map2 (+) (h ! i ! j)
                          (map2 (\<lambda>x y. complex_of_real x + complex_of_real y * \<i>)
                             (A (n + rank_in msk (p # ps) (i, j))) (B (n + rank_in msk (p # ps) (i, j))))
                   else h ! i ! j)"
      proof (cases "(i, j) = p")
        case True
        then show ?thesis using a notin cell1[OF ij] rk0 \<open>off_cell msk p\<close> by simp
      next
        case False
        then show ?thesis using a cell1[OF ij] rk[of "(i, j)"] by auto
      qed
    qed
    show ?thesis
      apply (rule exI[of _ h'])
      using h'(1,2,3) step shape1 cells True by simp
  qed
qed

subsection \<open>The diagonal path of the hybridization reader\<close>

lemma ncols_nonempty: "a \<noteq> [] \<Longrightarrow> ncols a = length (hd a)"
  by (cases a) (simp_all add: ncols_def)

lemma table_ok_row: "table_ok a \<Longrightarrow> m < length a \<Longrightarrow> length (a ! m) = ncols a"
  by (simp add: table_ok_def)

lemma slice_length [simp]: "length (scale c (slice_cols lo hi a)) = length a"
  by (simp add: scale_def slice_cols_def)

lemma slice_ncols:
  "table_ok a \<Longrightarrow> 4 + nc \<le> ncols a \<Longrightarrow> ncols (scale c (slice_cols 4 (4 + nc) a)) = nc"
  by (cases a) (auto simp: table_ok_def ncols_def scale_def slice_cols_def)

lemma slice_nth:
  assumes "table_ok a" "4 + nc \<le> ncols a" "m < length a" "i < nc"
  shows "scale c (slice_cols 4 (4 + nc) a) ! m ! i = c * a ! m ! (4 + i)"
proof -
  have "length (a ! m) = ncols a" using assms(1,3) by (rule table_ok_row)
  then show ?thesis using assms by (simp add: scale_def slice_cols_def)
qed

lemma slice_bget:
  assumes "table_ok a" "4 + nc \<le> ncols a" "m < length a" "i < nc"
  shows "bget (scale c (slice_cols 4 (4 + nc) a)) m i = c * a ! m ! (4 + i)"
proof -
  have l: "length (scale c (slice_cols 4 (4 + nc) a)) \<noteq> 1"
    using assms(1) by (simp add: table_ok_def)
  have "bget (scale c (slice_cols 4 (4 + nc) a)) m i = scale c (slice_cols 4 (4 + nc) a) ! m ! i"
    using l assms(4) slice_ncols[OF assms(1,2), of c] by (auto simp: bget_def)
  then show ?thesis using slice_nth[OF assms] by simp
qed

lemma add_complex2_diag:
  assumes "diag_ok nc re im"
  shows "add_complex2 (scale eV (slice_cols 4 (4 + nc) re)) (scale eV (slice_cols 4 (4 + nc) im)) =
     Inr (map (\<lambda>m. map (\<lambda>i. complex_of_real (eV * re ! m ! (4 + i))
                          + complex_of_real (eV * im ! m ! (4 + i)) * \<i>) [0..<nc])
              [0..<length re])"
proof -
  have ok: "table_ok re" "table_ok im" "length re = length im" "4 + nc \<le> ncols re" "4 + nc \<le> ncols im"
    using assms by (simp_all add: diag_ok_def)
  show ?thesis
    using ok(3)
    by (simp add: add_complex2_def bcast_def slice_ncols[OF ok(1,4)] slice_ncols[OF ok(2,5)]
        slice_bget[OF ok(1,4)] slice_bget[OF ok(2,5)])
qed

lemma transpose_arr_map:
  assumes "0 < r"
  shows "transpose_arr (map (\<lambda>m. map (f m) [0..<k]) [0..<r]) = map (\<lambda>i. map (\<lambda>m. f m i) [0..<r]) [0..<k]"
proof -
  have "ncols (map (\<lambda>m. map (f m) [0..<k]) [0..<r]) = k"
    using assms by (simp add: ncols_def upt_conv_Cons)
  then show ?thesis by (simp add: transpose_arr_def o_def)
qed

lemma set_diagonal_loop:
  "n \<le> length d \<Longrightarrow> n \<le> length h \<Longrightarrow>
   foldE (set_diagonal d) [0..<n] h =
     Inr (map (\<lambda>i. if i < n then (h ! i)[i := d ! i] else h ! i) [0..<length h])"
proof (induction n)
  case 0
  then show ?case by (simp add: map_nth)
next
  case (Suc n)
  then show ?case
    by (auto simp: foldE_append set_diagonal_def intro!: nth_equalityI simp: nth_list_update)
qed

lemma set_diagonal_zeros:
  assumes "nc \<le> length d"
  shows "foldE (set_diagonal d) [0..<nc] (zeros3 nc nw) = Inr (diag_matrix nc nw d)"
proof -
  have "foldE (set_diagonal d) [0..<nc] (zeros3 nc nw) =
     Inr (map (\<lambda>i. if i < nc then (zeros3 nc nw ! i)[i := d ! i] else zeros3 nc nw ! i)
            [0..<length (zeros3 nc nw)])"
    using assms by (intro set_diagonal_loop) (simp_all add: zeros3_def)
  also have "map (\<lambda>i. if i < nc then (zeros3 nc nw ! i)[i := d ! i] else zeros3 nc nw ! i)
            [0..<length (zeros3 nc nw)] = diag_matrix nc nw d"
    by (auto simp: zeros3_def diag_matrix_def intro!: nth_equalityI simp: nth_list_update)
  finally show ?thesis .
qed

lemma diag_ok_loads:
  assumes "diag_ok nc re im"
  shows "loadtxt (Some re) = Inr re" "loadtxt (Some im) = Inr im" "is2d re" "is2d im"
proof -
  have ok: "table_ok re" "table_ok im" "2 \<le> ncols re" "2 \<le> ncols im"
    using assms by (simp_all add: diag_ok_def)
  show "loadtxt (Some re) = Inr re" using ok(1) by (rule table_ok_loadtxt)
  show "loadtxt (Some im) = Inr im" using ok(2) by (rule table_ok_loadtxt)
  show "is2d re" using ok(1,3) by (rule table_ok_is2d)
  show "is2d im" using ok(2,4) by (rule table_ok_is2d)
qed

lemma diag_ok_pos: "diag_ok nc re im \<Longrightarrow> 0 < length re"
  unfolding diag_ok_def table_ok_def by linarith

lemma hyb_on_valid:
  assumes "diag_ok nc re im" "nc = (if spinpol then 2 * norb else norb)"
  shows "hyb eV re im norb spinpol file_re_off file_im_off outfile full =
     (if file_re_off = None \<and> file_im_off = None \<and> outfile = None then
        (if full then
           Inr (map (\<lambda>r. eV * r ! 0) re,
                Full (diag_matrix nc (length re) (diag_table eV nc re im)))
         else Inr (map (\<lambda>r. eV * r ! 0) re, Diagonal (diag_table eV nc re im)))
      else if file_re_off \<noteq> None \<and> file_im_off \<noteq> None \<and> outfile \<noteq> None then
        hyb_off eV nc norb spinpol (map (\<lambda>r. eV * r ! 0) re) (diag_table eV nc re im)
          file_re_off file_im_off (the outfile)
      else Inl (SystemExit ''Wrong input parameters.''))"
proof -
  define S where "S = map (\<lambda>m. map (\<lambda>i. complex_of_real (eV * re ! m ! (4 + i))
                          + complex_of_real (eV * im ! m ! (4 + i)) * \<i>) [0..<nc])
              [0..<length re]"
  have s: "add_complex2 (scale eV (slice_cols 4 (4 + nc) re))
             (scale eV (slice_cols 4 (4 + nc) im)) = Inr S"
    unfolding S_def using assms(1) by (rule add_complex2_diag)
  have t: "transpose_arr S = diag_table eV nc re im"
    unfolding S_def diag_table_def using diag_ok_pos[OF assms(1)] by (rule transpose_arr_map)
  have f: "foldE (set_diagonal (diag_table eV nc re im)) [0..<nc] (zeros3 nc (length re))
      = Inr (diag_matrix nc (length re) (diag_table eV nc re im))"
    by (rule set_diagonal_zeros) (simp add: diag_table_def)
  note l = diag_ok_loads[OF assms(1)]
  show ?thesis
  proof (cases spinpol)
    case True
    then have nc: "nc = 2 * norb" using assms(2) by simp
    show ?thesis using True s t f unfolding nc by (simp add: hyb_def l Let_def)
  next
    case False
    then have nc: "nc = norb" using assms(2) by simp
    show ?thesis using False s t f unfolding nc by (simp add: hyb_def l Let_def)
  qed
qed

text \<open>
  C6, as stated for every pair of tables with at least \<open>4 + nc\<close> columns, fails. A
  table of one row, with its six columns, is returned with one axis by \<^verbatim>\<open>np.loadtxt\<close>
  and \<^verbatim>\<open>re[:, 0]\<close> raises \<^verbatim>\<open>IndexError\<close>; a real table of two rows and an imaginary
  table of three cannot be added at line 43, which raises \<^verbatim>\<open>ValueError\<close>.
\<close>

theorem hyb_diagonal_table_counterexample:
  "hyb 2 [[-5, 0, 0, 0, 1.0, 2.0]] [[-5, 0, 0, 0, 1.0, 2.0]] 2 False None None None False = Inl IndexError
   \<and> hyb 2 [[-5, 0, 0, 0, 1.0, 2.0], [-4, 0, 0, 0, 1.5, 2.5]]
          [[-5, 0, 0, 0, 1.0, 2.0], [-4, 0, 0, 0, 1.5, 2.5], [-3, 0, 0, 0, 1.0, 1.0]]
          2 False None None None False = Inl ValueError"
  by (simp add: hyb_def loadtxt_def is2d_def add_complex2_def bcast_def scale_def slice_cols_def
      ncols_def Let_def)

text \<open>
  C6, amended. For a diagonal input of two tables with at least two rows each, all rows
  of a table of the same length, the same number of rows in both and at least \<open>4 + nc\<close> columns, where \<open>nc\<close> is \<open>2 * norb\<close> with spin polarisation
  and \<open>norb\<close> without, \<open>hyb\<close> returns the mesh \<open>eV\<close> times column 0, of the
  length of the table, and a diagonal table of exactly \<open>nc\<close> rows whose entry for the
  spin-orbital \<open>i\<close> at the mesh point \<open>m\<close> is \<open>eV\<close> times
  \<open>re[m, 4 + i] + \<i> * im[m, 4 + i]\<close>.
\<close>

theorem hyb_diagonal_table:
  assumes "diag_ok nc re im" and "nc = (if spinpol then 2 * norb else norb)"
  shows "\<exists>w d. hyb eV re im norb spinpol None None None False = Inr (w, Diagonal d)
           \<and> w = map (\<lambda>r. eV * r ! 0) re \<and> length w = length re \<and> length d = nc
           \<and> (\<forall>i<nc. length (d ! i) = length re
                \<and> (\<forall>m<length re. d ! i ! m =
                      complex_of_real eV * (complex_of_real (re ! m ! (4 + i))
                                            + \<i> * complex_of_real (im ! m ! (4 + i)))))"
  by (simp add: hyb_on_valid[OF assms] diag_table_def algebra_simps)

text \<open>
  The scenario of the specification, with 2 for \<open>eV\<close>: two rows, two orbitals, no spin
  polarisation; the mesh is \<open>eV * [-5, -4]\<close> and the entries at mesh point 0 are
  \<open>eV * (1 + \<i>)\<close> and \<open>eV * (2 + 2 * \<i>)\<close>.
\<close>

theorem hyb_diagonal_table_witness:
  "diag_ok 2 [[-5, 0, 0, 0, 1.0, 2.0], [-4, 0, 0, 0, 1.5, 2.5]] [[-5, 0, 0, 0, 1.0, 2.0], [-4, 0, 0, 0, 1.5, 2.5]]
   \<and> hyb 2 [[-5, 0, 0, 0, 1.0, 2.0], [-4, 0, 0, 0, 1.5, 2.5]] [[-5, 0, 0, 0, 1.0, 2.0], [-4, 0, 0, 0, 1.5, 2.5]]
       2 False None None None False =
     Inr ([2 * (-5), 2 * (-4)],
          Diagonal [[2 * (1.0 + 1.0 * \<i>), 2 * (1.5 + 1.5 * \<i>)], [2 * (2.0 + 2.0 * \<i>), 2 * (2.5 + 2.5 * \<i>)]])"
proof -
  have ok: "diag_ok 2 [[-5, 0, 0, 0, 1.0, 2.0], [-4, 0, 0, 0, 1.5, 2.5]] [[-5, 0, 0, 0, 1.0, 2.0], [-4, 0, 0, 0, 1.5, 2.5]]"
    by (simp add: diag_ok_def table_ok_def ncols_def)
  obtain w d where r: "hyb 2 [[-5, 0, 0, 0, 1.0, 2.0], [-4, 0, 0, 0, 1.5, 2.5]] [[-5, 0, 0, 0, 1.0, 2.0], [-4, 0, 0, 0, 1.5, 2.5]]
       2 False None None None False = Inr (w, Diagonal d)"
     "w = map (\<lambda>r. 2 * r ! 0) [[-5, 0, 0, 0, 1.0, 2.0], [-4, 0, 0, 0, 1.5, 2.5]]"
     "length d = 2"
     "\<forall>i<2. length (d ! i) = length [[-5, 0, 0, 0, 1.0, 2.0], [-4, 0, 0, 0, 1.5, 2.5::real]]
                \<and> (\<forall>m<length [[-5, 0, 0, 0, 1.0, 2.0], [-4, 0, 0, 0, 1.5, 2.5::real]]. d ! i ! m =
                      complex_of_real 2 * (complex_of_real ([[-5, 0, 0, 0, 1.0, 2.0], [-4, 0, 0, 0, 1.5, 2.5]] ! m ! (4 + i))
                                            + \<i> * complex_of_real ([[-5, 0, 0, 0, 1.0, 2.0], [-4, 0, 0, 0, 1.5, 2.5]] ! m ! (4 + i))))"
    using hyb_diagonal_table[OF ok, of False 2 2] by auto
  have "d = [[2 * (1.0 + 1.0 * \<i>), 2 * (1.5 + 1.5 * \<i>)], [2 * (2.0 + 2.0 * \<i>), 2 * (2.5 + 2.5 * \<i>)]]"
    using r(3,4) by (auto simp: less_Suc_eq numeral_2_eq_2 intro!: nth_equalityI)
  then show ?thesis using ok r(1,2) by simp
qed

subsection \<open>Errors of the hybridization reader\<close>

lemma foldE_error: "foldE f xs s = Inl e \<Longrightarrow> \<exists>x s'. f x s' = Inl e"
  by (induction xs arbitrary: s) (auto split: sum.splits)

lemma loadtxt_error: "loadtxt f = Inl e \<Longrightarrow> e = ValueError"
  by (auto simp: loadtxt_def split: option.splits if_splits)

lemma add_complex2_error: "add_complex2 a b = Inl e \<Longrightarrow> e = ValueError"
  by (auto simp: add_complex2_def split: option.splits)

lemma set_diagonal_error: "foldE (set_diagonal d) xs h = Inl e \<Longrightarrow> e = IndexError"
  by (auto dest!: foldE_error simp: set_diagonal_def split: if_splits)

lemma add_off_error: "add_off re im msk j i s = Inl e \<Longrightarrow> e = IndexError \<or> e = ValueError"
  by (auto simp: add_off_def column_def split: prod.splits if_splits sum.splits)

lemma fill_off_error: "fill_off re im msk nc h = Inl e \<Longrightarrow> e = IndexError \<or> e = ValueError"
  unfolding fill_off_def by (auto dest!: foldE_error dest: add_off_error)

lemma read_mask_error: "read_mask norb spinpol out = Inl e \<Longrightarrow> e = AttributeError \<or> e = ValueError"
  by (auto simp: read_mask_def int_array_def reshape_def Let_def split: sum.splits option.splits if_splits)

lemma hyb_off_error:
  "hyb_off eV nc norb spinpol w d fro fio out = Inl e \<Longrightarrow> e \<noteq> SystemExit s"
  by (auto simp: hyb_off_def split: sum.splits if_splits
      dest: loadtxt_error read_mask_error set_diagonal_error fill_off_error)

lemma partial_off_iff:
  "partial_off fro fio out \<longleftrightarrow>
     \<not> (fro = None \<and> fio = None \<and> out = None) \<and> \<not> (fro \<noteq> None \<and> fio \<noteq> None \<and> out \<noteq> None)"
  by (cases fro; cases fio; cases out) (simp_all add: partial_off_def)

lemma hyb_partial_fails:
  assumes "partial_off fro fio out"
  shows "\<exists>e. hyb eV re im norb spinpol fro fio out full = Inl e"
  using assms unfolding partial_off_iff hyb_def Let_def
  by (auto split: sum.splits)

lemma hyb_exit_only_partial:
  assumes "hyb eV re im norb spinpol fro fio out full = Inl (SystemExit s)"
  shows "partial_off fro fio out"
proof (rule ccontr)
  assume "\<not> partial_off fro fio out"
  then consider "fro = None \<and> fio = None \<and> out = None" | "fro \<noteq> None \<and> fio \<noteq> None \<and> out \<noteq> None"
    unfolding partial_off_iff by blast
  then show False
  proof cases
    case 1
    then show ?thesis using assms
      by (auto simp: hyb_def Let_def split: sum.splits if_splits
          dest: loadtxt_error add_complex2_error set_diagonal_error)
  next
    case 2
    then show ?thesis using assms
      by (auto simp: hyb_def Let_def split: sum.splits if_splits
          dest: loadtxt_error add_complex2_error hyb_off_error)
  qed
qed

lemma loadtxt_Some: "loadtxt (Some a) = Inr b \<Longrightarrow> b = a"
  by (auto simp: loadtxt_def split: if_splits)

lemma reads2d_iff: "reads2d a \<longleftrightarrow> loadtxt (Some a) = Inr a \<and> is2d a"
  by (cases a) (auto simp: reads2d_def table_ok_def loadtxt_def is2d_def ncols_def)

lemma add_complex2_iff:
  "(\<exists>s. add_complex2 a b = Inr s) \<longleftrightarrow>
     bcast (length a) (length b) \<noteq> None \<and> bcast (ncols a) (ncols b) \<noteq> None"
  by (auto simp: add_complex2_def split: option.splits)

lemma bcast_rows: "2 \<le> m \<Longrightarrow> 2 \<le> n \<Longrightarrow> bcast m n \<noteq> None \<longleftrightarrow> m = n"
  by (auto simp: bcast_def)

lemma slice_ncols_any: "ncols (scale c (slice_cols 4 (4 + nc) a)) = min (ncols a) (4 + nc) - 4"
  by (cases a) (auto simp: ncols_def scale_def slice_cols_def)

lemma cols_from_ncols_any: "ncols (cols_from k a) = ncols a - k"
  by (cases a) (auto simp: ncols_def cols_from_def)

lemma cols_from_length: "length (cols_from k a) = length a"
  by (simp add: cols_from_def)

lemma reads2d_rows: "reads2d a \<Longrightarrow> 2 \<le> length a"
  by (simp add: reads2d_def table_ok_def)

lemma diag_reads_iff:
  "diag_reads nc re im \<longleftrightarrow>
     loadtxt (Some re) = Inr re \<and> loadtxt (Some im) = Inr im \<and> is2d re \<and> is2d im
     \<and> (\<exists>s. add_complex2 (scale eV (slice_cols 4 (4 + nc) re))
                           (scale eV (slice_cols 4 (4 + nc) im)) = Inr s)"
proof -
  have "is2d re \<Longrightarrow> is2d im \<Longrightarrow>
      (bcast (length re) (length im) \<noteq> None) = (length re = length im)"
    by (intro bcast_rows) (simp_all add: is2d_def)
  then show ?thesis
    unfolding diag_reads_def reads2d_iff add_complex2_iff slice_ncols_any slice_length
    by blast
qed

lemma hyb_reads:
  assumes "diag_reads nc re im" "nc = (if spinpol then 2 * norb else norb)"
  shows "\<exists>s. hyb eV re im norb spinpol fro fio out full =
     (if fro = None \<and> fio = None \<and> out = None then
        (if full then
           (case foldE (set_diagonal (transpose_arr s)) [0..<nc] (zeros3 nc (length re)) of
              Inl e \<Rightarrow> Inl e
            | Inr h \<Rightarrow> Inr (map (\<lambda>r. eV * r ! 0) re, Full h))
         else Inr (map (\<lambda>r. eV * r ! 0) re, Diagonal (transpose_arr s)))
      else if fro \<noteq> None \<and> fio \<noteq> None \<and> out \<noteq> None then
        hyb_off eV nc norb spinpol (map (\<lambda>r. eV * r ! 0) re) (transpose_arr s) fro fio (the out)
      else Inl (SystemExit ''Wrong input parameters.''))
     \<and> add_complex2 (scale eV (slice_cols 4 (4 + nc) re))
                           (scale eV (slice_cols 4 (4 + nc) im)) = Inr s"
proof -
  obtain s where s: "loadtxt (Some re) = Inr re" "loadtxt (Some im) = Inr im" "is2d re" "is2d im"
     "add_complex2 (scale eV (slice_cols 4 (4 + nc) re)) (scale eV (slice_cols 4 (4 + nc) im)) = Inr s"
    using assms(1) unfolding diag_reads_iff[of nc re im eV] by blast
  show ?thesis
  proof (cases spinpol)
    case True
    then have nc: "nc = 2 * norb" using assms(2) by simp
    show ?thesis using True s unfolding nc by (intro exI[of _ s]) (simp add: hyb_def Let_def)
  next
    case False
    then have nc: "nc = norb" using assms(2) by simp
    show ?thesis using False s unfolding nc by (intro exI[of _ s]) (simp add: hyb_def Let_def)
  qed
qed

lemma hyb_not_reads:
  assumes "\<not> diag_reads nc re im" "nc = (if spinpol then 2 * norb else norb)"
  shows "hyb eV re im norb spinpol fro fio out full = Inl ValueError
         \<or> hyb eV re im norb spinpol fro fio out full = Inl IndexError"
proof -
  have n: "\<not> (loadtxt (Some re) = Inr re \<and> loadtxt (Some im) = Inr im \<and> is2d re \<and> is2d im
     \<and> (\<exists>s. add_complex2 (scale eV (slice_cols 4 (4 + nc) re))
                           (scale eV (slice_cols 4 (4 + nc) im)) = Inr s))"
    using assms(1) unfolding diag_reads_iff[of nc re im eV] .
  show ?thesis
  proof (cases spinpol)
    case True
    then have nc: "nc = 2 * norb" using assms(2) by simp
    show ?thesis using True n unfolding nc
      by (auto simp: hyb_def Let_def split: sum.splits dest: loadtxt_error add_complex2_error loadtxt_Some)
  next
    case False
    then have nc: "nc = norb" using assms(2) by simp
    show ?thesis using False n unfolding nc
      by (auto simp: hyb_def Let_def split: sum.splits dest: loadtxt_error add_complex2_error loadtxt_Some)
  qed
qed

text \<open>
  C5, as stated, fails: the diagonal tables are read before the arguments are tested at
  line 44. With one optional file and diagonal tables of one row the call ends in the
  \<^verbatim>\<open>IndexError\<close> of line 39, and with rows of different lengths in the \<^verbatim>\<open>ValueError\<close>
  of \<^verbatim>\<open>np.loadtxt\<close>, not in \<^verbatim>\<open>sys.exit('Wrong input parameters.')\<close>.
\<close>

theorem hyb_partial_arguments_counterexample:
  "hyb 2 [[-5, 0, 0, 0, 1.0, 2.0]] [[-5, 0, 0, 0, 1.0, 2.0]] 2 False (Some [[0, 1], [1, 2]]) None None False
     = Inl IndexError
   \<and> hyb 2 [[-5, 0, 0, 0, 1.0, 2.0], [-4, 0, 0, 0, 1.5]] [[-5, 0, 0, 0, 1.0, 2.0], [-4, 0, 0, 0, 1.5, 2.5]]
       2 False (Some [[0, 1], [1, 2]]) None None False = Inl ValueError"
  by (simp add: hyb_def loadtxt_def is2d_def)

text \<open>
  C5, amended. A call of \<open>hyb\<close> with one or two of the three optional files fails. It
  fails with \<^verbatim>\<open>sys.exit('Wrong input parameters.')\<close> exactly when the diagonal tables
  are read, that is when \<open>diag_reads\<close> holds; otherwise it fails with the
  \<^verbatim>\<open>ValueError\<close> or the \<^verbatim>\<open>IndexError\<close> of lines 36 to 43. A call with all three or
  with none of the optional files never ends in that exit.
\<close>

theorem hyb_partial_arguments:
  "(partial_off fro fio out \<longrightarrow>
      (\<exists>e. hyb eV re im norb spinpol fro fio out full = Inl e)
      \<and> (hyb eV re im norb spinpol fro fio out full = Inl (SystemExit ''Wrong input parameters.'')
           \<longleftrightarrow> diag_reads (if spinpol then 2 * norb else norb) re im)
      \<and> (\<not> diag_reads (if spinpol then 2 * norb else norb) re im \<longrightarrow>
           hyb eV re im norb spinpol fro fio out full = Inl ValueError
           \<or> hyb eV re im norb spinpol fro fio out full = Inl IndexError))
   \<and> (\<not> partial_off fro fio out \<longrightarrow>
        hyb eV re im norb spinpol fro fio out full \<noteq> Inl (SystemExit ''Wrong input parameters.''))"
proof (intro conjI impI)
  assume p: "partial_off fro fio out"
  show "\<exists>e. hyb eV re im norb spinpol fro fio out full = Inl e"
    using p by (rule hyb_partial_fails)
  show "hyb eV re im norb spinpol fro fio out full = Inl (SystemExit ''Wrong input parameters.'')
           \<longleftrightarrow> diag_reads (if spinpol then 2 * norb else norb) re im"
  proof
    assume e: "hyb eV re im norb spinpol fro fio out full = Inl (SystemExit ''Wrong input parameters.'')"
    show "diag_reads (if spinpol then 2 * norb else norb) re im"
    proof (rule ccontr)
      assume "\<not> diag_reads (if spinpol then 2 * norb else norb) re im"
      then have "hyb eV re im norb spinpol fro fio out full = Inl ValueError
         \<or> hyb eV re im norb spinpol fro fio out full = Inl IndexError"
        by (rule hyb_not_reads) (rule refl)
      then show False using e by auto
    qed
  next
    assume r: "diag_reads (if spinpol then 2 * norb else norb) re im"
    show "hyb eV re im norb spinpol fro fio out full = Inl (SystemExit ''Wrong input parameters.'')"
      using hyb_reads[OF r refl, of eV fro fio out full] p unfolding partial_off_iff by auto
  qed
next
  assume "partial_off fro fio out"
  assume "\<not> diag_reads (if spinpol then 2 * norb else norb) re im"
  then show "hyb eV re im norb spinpol fro fio out full = Inl ValueError
           \<or> hyb eV re im norb spinpol fro fio out full = Inl IndexError"
    by (rule hyb_not_reads) (rule refl)
next
  assume "\<not> partial_off fro fio out"
  then show "hyb eV re im norb spinpol fro fio out full \<noteq> Inl (SystemExit ''Wrong input parameters.'')"
    using hyb_exit_only_partial by blast
qed

theorem hyb_partial_arguments_witness:
  "partial_off (Some [[0, 1], [1, 2]]) None None
   \<and> diag_reads 2 [[-5, 0, 0, 0, 1.0, 2.0], [-4, 0, 0, 0, 1.5, 2.5]] [[-5, 0, 0, 0, 1.0, 2.0], [-4, 0, 0, 0, 1.5, 2.5]]
   \<and> hyb 2 [[-5, 0, 0, 0, 1.0, 2.0], [-4, 0, 0, 0, 1.5, 2.5]] [[-5, 0, 0, 0, 1.0, 2.0], [-4, 0, 0, 0, 1.5, 2.5]]
       2 False (Some [[0, 1], [1, 2]]) None None False = Inl (SystemExit ''Wrong input parameters.'')
   \<and> \<not> diag_reads 2 [[-5, 0, 0, 0, 1.0, 2.0]] [[-5, 0, 0, 0, 1.0, 2.0]]
   \<and> hyb 2 [[-5, 0, 0, 0, 1.0, 2.0]] [[-5, 0, 0, 0, 1.0, 2.0]]
       2 False (Some [[0, 1], [1, 2]]) None None False \<noteq> Inl (SystemExit ''Wrong input parameters.'')
   \<and> \<not> partial_off None None None
   \<and> hyb 2 [[-5, 0, 0, 0, 1.0, 2.0], [-4, 0, 0, 0, 1.5, 2.5]] [[-5, 0, 0, 0, 1.0, 2.0], [-4, 0, 0, 0, 1.5, 2.5]]
       2 False None None None False \<noteq> Inl (SystemExit ''Wrong input parameters.'')"
proof -
  let ?re = "[[-5, 0, 0, 0, 1.0, 2.0], [-4, 0, 0, 0, 1.5, 2.5::real]]"
  let ?one = "[[-5, 0, 0, 0, 1.0, 2.0::real]]"
  let ?off = "Some [[0, 1], [1, 2::real]]"
  have ok: "diag_reads (if False then 2 * 2 else 2) ?re ?re"
    by (simp add: diag_reads_def reads2d_def table_ok_def ncols_def bcast_def)
  have no: "\<not> diag_reads (if False then 2 * 2 else 2) ?one ?one"
    by (simp add: diag_reads_def reads2d_def table_ok_def)
  have p: "partial_off ?off None None" by (simp add: partial_off_def)
  have q: "\<not> partial_off None None None" by (simp add: partial_off_def)
  note a = hyb_partial_arguments[of ?off None None 2 ?re ?re 2 False False, THEN conjunct1, THEN mp, OF p]
  note b = hyb_partial_arguments[of ?off None None 2 ?one ?one 2 False False, THEN conjunct1, THEN mp, OF p]
  note c = hyb_partial_arguments[of None None None 2 ?re ?re 2 False False, THEN conjunct2, THEN mp, OF q]
  have 1: "hyb 2 ?re ?re 2 False ?off None None False = Inl (SystemExit ''Wrong input parameters.'')"
    using a ok by blast
  have 2: "hyb 2 ?one ?one 2 False ?off None None False \<noteq> Inl (SystemExit ''Wrong input parameters.'')"
    using b no by blast
  have ok': "diag_reads 2 ?re ?re" using ok by simp
  have no': "\<not> diag_reads 2 ?one ?one" using no by simp
  show ?thesis using p q ok' no' 1 2 c by blast
qed

subsection \<open>The two forms of the diagonal result\<close>

lemma set_diagonal_short:
  "length d < n \<Longrightarrow> foldE (set_diagonal d) [0..<n] h = Inl IndexError"
proof (induction n)
  case 0
  then show ?case by simp
next
  case (Suc n)
  show ?case
  proof (cases "foldE (set_diagonal d) [0..<n] h")
    case (Inl e)
    then have "e = IndexError" by (rule set_diagonal_error)
    then show ?thesis using Inl by (simp add: foldE_append)
  next
    case (Inr h1)
    have "\<not> length d < n" using Inr Suc.IH by auto
    then have "\<not> n < length d" using Suc.prems by simp
    then have "set_diagonal d n h1 = Inl IndexError" by (simp add: set_diagonal_def)
    then show ?thesis using Inr by (simp add: foldE_append)
  qed
qed

lemma add_complex2_ncols:
  assumes "add_complex2 a b = Inr s"
  shows "ncols s \<le> max (ncols a) (ncols b)"
proof (cases s)
  case Nil
  then show ?thesis by (simp add: ncols_def)
next
  case (Cons x xs)
  obtain r k where rk: "bcast (length a) (length b) = Some r" "bcast (ncols a) (ncols b) = Some k"
     "s = map (\<lambda>m. map (\<lambda>i. complex_of_real (bget a m i) + complex_of_real (bget b m i) * \<i>) [0..<k]) [0..<r]"
    using assms by (auto simp: add_complex2_def split: option.splits)
  have "0 < r" using Cons rk(3) by (cases r) auto
  then have "ncols s = k" using rk(3) by (simp add: ncols_def upt_conv_Cons)
  moreover have "k \<le> max (ncols a) (ncols b)"
    using rk(2) by (auto simp: bcast_def split: if_splits)
  ultimately show ?thesis by simp
qed

lemma hyb_full_returns:
  assumes "hyb eV re im norb spinpol None None None True = Inr (w, Full h)"
    and "nc = (if spinpol then 2 * norb else norb)"
  shows "\<exists>d. hyb eV re im norb spinpol None None None False = Inr (w, Diagonal d)
           \<and> length d = nc \<and> h = diag_matrix nc (length re) d \<and> w = map (\<lambda>r. eV * r ! 0) re"
proof -
  have r: "diag_reads nc re im"
  proof (rule ccontr)
    assume "\<not> diag_reads nc re im"
    then have "hyb eV re im norb spinpol None None None True = Inl ValueError
         \<or> hyb eV re im norb spinpol None None None True = Inl IndexError"
      using assms(2) by (rule hyb_not_reads)
    then show False using assms(1) by auto
  qed
  obtain s where s: "hyb eV re im norb spinpol None None None True =
        (case foldE (set_diagonal (transpose_arr s)) [0..<nc] (zeros3 nc (length re)) of
              Inl e \<Rightarrow> Inl e
            | Inr h \<Rightarrow> Inr (map (\<lambda>r. eV * r ! 0) re, Full h))"
      "add_complex2 (scale eV (slice_cols 4 (4 + nc) re))
                           (scale eV (slice_cols 4 (4 + nc) im)) = Inr s"
    using hyb_reads[OF r assms(2), of eV None None None True] by auto
  obtain s' where s': "hyb eV re im norb spinpol None None None False =
        Inr (map (\<lambda>r. eV * r ! 0) re, Diagonal (transpose_arr s'))"
      "add_complex2 (scale eV (slice_cols 4 (4 + nc) re))
                           (scale eV (slice_cols 4 (4 + nc) im)) = Inr s'"
    using hyb_reads[OF r assms(2), of eV None None None False] by auto
  have same: "s' = s" using s(2) s'(2) by simp
  let ?d = "transpose_arr s"
  have up: "length ?d \<le> nc"
    using add_complex2_ncols[OF s(2)] by (simp add: transpose_arr_def slice_ncols_any)
  have lo: "nc \<le> length ?d"
  proof (rule ccontr)
    assume "\<not> nc \<le> length ?d"
    then have "foldE (set_diagonal ?d) [0..<nc] (zeros3 nc (length re)) = Inl IndexError"
      by (intro set_diagonal_short) simp
    then show False using s(1) assms(1) by simp
  qed
  have "foldE (set_diagonal ?d) [0..<nc] (zeros3 nc (length re)) = Inr (diag_matrix nc (length re) ?d)"
    using lo by (rule set_diagonal_zeros)
  then have "w = map (\<lambda>r. eV * r ! 0) re" "h = diag_matrix nc (length re) ?d"
    using s(1) assms(1) by simp_all
  then show ?thesis using s'(1) same up lo by simp
qed

text \<open>
  C9, as stated for every diagonal-only input, fails: with tables of five columns and
  two spin-orbitals the slice keeps one column, the call without
  \<open>return_as_full_matrix\<close> returns a table of one row, and the call with it raises
  \<^verbatim>\<open>IndexError\<close> at line 50, so there is no matrix whose diagonal could be compared.
\<close>

theorem hyb_full_diagonal_roundtrip_counterexample:
  "hyb 2 [[-5, 0, 0, 0, 1.0], [-4, 0, 0, 0, 1.5]] [[-5, 0, 0, 0, 1.0], [-4, 0, 0, 0, 1.5]]
       2 False None None None False = Inr ([-10, -8], Diagonal [[Complex 2 2, Complex 3 3]])
   \<and> hyb 2 [[-5, 0, 0, 0, 1.0], [-4, 0, 0, 0, 1.5]] [[-5, 0, 0, 0, 1.0], [-4, 0, 0, 0, 1.5]]
       2 False None None None True = Inl IndexError"
  by (simp add: hyb_def loadtxt_def is2d_def add_complex2_def bcast_def bget_def scale_def
      slice_cols_def transpose_arr_def set_diagonal_def zeros3_def ncols_def upt_rec Let_def
      complex_eq_iff)

text \<open>
  C9, amended. Whenever the call with \<open>return_as_full_matrix\<close> returns, the call
  without it returns too, with the same mesh and a table of exactly \<open>nc\<close> rows, and the
  diagonal \<open>h[i, i, :]\<close> of the matrix is row \<open>i\<close> of the table, for every spin-orbital
  \<open>i < nc\<close> and every mesh point. The call with \<open>return_as_full_matrix\<close> returns on
  every diagonal input that is well formed: two tables with at least two rows each, all
  rows of a table of the same length, the same number of rows in both and at least
  \<open>4 + nc\<close> columns.
\<close>

theorem hyb_full_diagonal_roundtrip:
  assumes "nc = (if spinpol then 2 * norb else norb)"
  shows "(hyb eV re im norb spinpol None None None True = Inr (w, Full h) \<longrightarrow>
            (\<exists>d. hyb eV re im norb spinpol None None None False = Inr (w, Diagonal d)
                 \<and> length d = nc \<and> length h = nc
                 \<and> (\<forall>i<nc. h ! i ! i = d ! i \<and> (\<forall>m<length w. h ! i ! i ! m = d ! i ! m))))
         \<and> (diag_ok nc re im \<longrightarrow>
              (\<exists>w' h'. hyb eV re im norb spinpol None None None True = Inr (w', Full h')))"
proof (intro conjI impI)
  assume "hyb eV re im norb spinpol None None None True = Inr (w, Full h)"
  then obtain d where d: "hyb eV re im norb spinpol None None None False = Inr (w, Diagonal d)"
      "length d = nc" "h = diag_matrix nc (length re) d"
    using hyb_full_returns[OF _ assms] by blast
  show "\<exists>d. hyb eV re im norb spinpol None None None False = Inr (w, Diagonal d)
                 \<and> length d = nc \<and> length h = nc
                 \<and> (\<forall>i<nc. h ! i ! i = d ! i \<and> (\<forall>m<length w. h ! i ! i ! m = d ! i ! m))"
    using d by (intro exI[of _ d]) (simp add: diag_matrix_def)
next
  assume "diag_ok nc re im"
  then show "\<exists>w' h'. hyb eV re im norb spinpol None None None True = Inr (w', Full h')"
    using assms by (simp add: hyb_on_valid)
qed

theorem hyb_full_diagonal_roundtrip_witness:
  "diag_ok 2 [[-5, 0, 0, 0, 1.0, 2.0], [-4, 0, 0, 0, 1.5, 2.5]] [[-5, 0, 0, 0, 1.0, 2.0], [-4, 0, 0, 0, 1.5, 2.5]]
   \<and> (\<exists>w d h. hyb 2 [[-5, 0, 0, 0, 1.0, 2.0], [-4, 0, 0, 0, 1.5, 2.5]] [[-5, 0, 0, 0, 1.0, 2.0], [-4, 0, 0, 0, 1.5, 2.5]]
                 2 False None None None True = Inr (w, Full h)
         \<and> hyb 2 [[-5, 0, 0, 0, 1.0, 2.0], [-4, 0, 0, 0, 1.5, 2.5]] [[-5, 0, 0, 0, 1.0, 2.0], [-4, 0, 0, 0, 1.5, 2.5]]
                 2 False None None None False = Inr (w, Diagonal d)
         \<and> length d = 2 \<and> h ! 0 ! 0 = d ! 0 \<and> h ! 1 ! 1 = d ! 1)"
proof -
  let ?re = "[[-5, 0, 0, 0, 1.0, 2.0], [-4, 0, 0, 0, 1.5, 2.5::real]]"
  have ok: "diag_ok 2 ?re ?re"
    by (simp add: diag_ok_def table_ok_def ncols_def)
  have nc: "(2::nat) = (if False then 2 * 2 else 2)" by simp
  obtain w h where f: "hyb 2 ?re ?re 2 False None None None True = Inr (w, Full h)"
    using hyb_full_diagonal_roundtrip[OF nc, of 2 ?re ?re, THEN conjunct2, THEN mp, OF ok] by blast
  obtain d where d: "hyb 2 ?re ?re 2 False None None None False = Inr (w, Diagonal d)"
      "length d = 2" "\<forall>i<2. h ! i ! i = d ! i \<and> (\<forall>m<length w. h ! i ! i ! m = d ! i ! m)"
    using hyb_full_diagonal_roundtrip[OF nc, of 2 ?re ?re w h, THEN conjunct1, THEN mp, OF f] by blast
  have "h ! 0 ! 0 = d ! 0" "h ! 1 ! 1 = d ! 1" using d(3) by simp_all
  then show ?thesis using ok f d(1,2) by blast
qed

subsection \<open>The self-energy reader\<close>

lemma self_energy_fails: "\<exists>e. self_energy eV re im spinpol fro fio = Inl e"
  by (auto simp: self_energy_def Let_def split: sum.splits)

lemma ncols_map_map: "ncols (map (map f) s) = ncols s"
  by (cases s) (simp_all add: ncols_def)

lemma se_reads_iff:
  "se_reads re im ro io \<longleftrightarrow>
     loadtxt (Some re) = Inr re \<and> loadtxt (Some im) = Inr im \<and> is2d re \<and> is2d im
     \<and> (\<exists>s. add_complex2 (cols_from 4 re) (cols_from 4 im) = Inr s)
     \<and> loadtxt (Some ro) = Inr ro \<and> is2d ro \<and> loadtxt (Some io) = Inr io \<and> is2d io"
proof -
  have "is2d re \<Longrightarrow> is2d im \<Longrightarrow>
      (bcast (length re) (length im) \<noteq> None) = (length re = length im)"
    by (intro bcast_rows) (simp_all add: is2d_def)
  then show ?thesis
    unfolding se_reads_def reads2d_iff add_complex2_iff cols_from_ncols_any cols_from_length
    by blast
qed

lemma self_energy_reads:
  assumes "se_reads re im ro io"
  shows "self_energy eV re im spinpol (Some ro) (Some io) = Inl (SystemExit ''Implementation not complete...'')"
proof -
  obtain s where s: "loadtxt (Some re) = Inr re" "loadtxt (Some im) = Inr im" "is2d re" "is2d im"
     "add_complex2 (cols_from 4 re) (cols_from 4 im) = Inr s"
     "loadtxt (Some ro) = Inr ro" "is2d ro" "loadtxt (Some io) = Inr io" "is2d io"
    using assms unfolding se_reads_iff by blast
  let ?t = "map (map (\<lambda>z. complex_of_real eV * z)) s"
  have len: "length (transpose_arr ?t) = ncols s"
    by (simp add: transpose_arr_def ncols_map_map)
  have "foldE (set_diagonal (transpose_arr ?t)) [0..<ncols s] (zeros3 (ncols s) (length s))
     = Inr (diag_matrix (ncols s) (length s) (transpose_arr ?t))"
    by (rule set_diagonal_zeros) (simp add: len)
  then show ?thesis
    using s by (simp add: self_energy_def Let_def)
qed

lemma self_energy_not_reads:
  assumes "\<not> se_reads re im ro io"
  shows "self_energy eV re im spinpol (Some ro) (Some io) = Inl ValueError
       \<or> self_energy eV re im spinpol (Some ro) (Some io) = Inl IndexError"
  using assms unfolding se_reads_iff
  by (auto simp: self_energy_def Let_def split: sum.splits
      dest: loadtxt_error add_complex2_error loadtxt_Some set_diagonal_error)

text \<open>
  C1. Without off-diagonal files \<open>self_energy\<close> returns nothing: every such call ends
  in an error, since line 127 loads the file name \<^verbatim>\<open>None\<close>. On two well-formed
  diagonal tables the error is the \<^verbatim>\<open>ValueError\<close> of \<^verbatim>\<open>np.loadtxt\<close>.
\<close>

theorem self_energy_without_off_diagonal:
  "(\<exists>e. self_energy eV re im spinpol None None = Inl e)
   \<and> self_energy 2 [[-5, 0, 0, 0, 1.0, 2.0], [-4, 0, 0, 0, 1.5, 2.5]]
        [[-5, 0, 0, 0, 1.0, 2.0], [-4, 0, 0, 0, 1.5, 2.5]] False None None = Inl ValueError"
  by (simp add: self_energy_fails) (simp add: self_energy_def loadtxt_def is2d_def add_complex2_def bcast_def cols_from_def ncols_def Let_def)

text \<open>
  C2, as stated, fails: with off-diagonal files and diagonal tables of three and of two
  rows, the call ends in the \<^verbatim>\<open>ValueError\<close> of line 121, before line 135 is reached.
\<close>

theorem self_energy_off_diagonal_counterexample:
  "self_energy 2 [[-5, 0, 0, 0, 1.0, 2.0], [-4, 0, 0, 0, 1.5, 2.5]]
        [[-5, 0, 0, 0, 1.0, 2.0], [-4, 0, 0, 0, 1.5, 2.5], [-3, 0, 0, 0, 1.0, 1.0]] False
        (Some [[-5, 7, 8], [-4, 10, 11]]) (Some [[-5, 7, 8], [-4, 10, 11]]) = Inl ValueError"
  by (simp add: self_energy_def loadtxt_def is2d_def add_complex2_def bcast_def cols_from_def ncols_def Let_def)

text \<open>
  C2, amended. Every call of \<open>self_energy\<close> with off-diagonal files ends in an error
  and returns nothing. The error is \<^verbatim>\<open>sys.exit('Implementation not complete...')\<close>
  exactly when the tables are read, that is when \<open>se_reads\<close> holds; otherwise it is the
  \<^verbatim>\<open>ValueError\<close> or the \<^verbatim>\<open>IndexError\<close> of lines 116 to 128.
\<close>

theorem self_energy_off_diagonal:
  "(\<exists>e. self_energy eV re im spinpol (Some ro) (Some io) = Inl e)
   \<and> (self_energy eV re im spinpol (Some ro) (Some io) = Inl (SystemExit ''Implementation not complete...'')
        \<longleftrightarrow> se_reads re im ro io)
   \<and> (\<not> se_reads re im ro io \<longrightarrow>
        self_energy eV re im spinpol (Some ro) (Some io) = Inl ValueError
        \<or> self_energy eV re im spinpol (Some ro) (Some io) = Inl IndexError)"
proof (intro conjI impI)
  show "\<exists>e. self_energy eV re im spinpol (Some ro) (Some io) = Inl e"
    by (rule self_energy_fails)
  show "self_energy eV re im spinpol (Some ro) (Some io) = Inl (SystemExit ''Implementation not complete...'')
        \<longleftrightarrow> se_reads re im ro io"
  proof
    assume e: "self_energy eV re im spinpol (Some ro) (Some io)
        = Inl (SystemExit ''Implementation not complete...'')"
    show "se_reads re im ro io"
    proof (rule ccontr)
      assume "\<not> se_reads re im ro io"
      then have "self_energy eV re im spinpol (Some ro) (Some io) = Inl ValueError
        \<or> self_energy eV re im spinpol (Some ro) (Some io) = Inl IndexError"
        by (rule self_energy_not_reads)
      then show False using e by auto
    qed
  next
    assume "se_reads re im ro io"
    then show "self_energy eV re im spinpol (Some ro) (Some io)
        = Inl (SystemExit ''Implementation not complete...'')"
      by (rule self_energy_reads)
  qed
  assume "\<not> se_reads re im ro io"
  then show "self_energy eV re im spinpol (Some ro) (Some io) = Inl ValueError
        \<or> self_energy eV re im spinpol (Some ro) (Some io) = Inl IndexError"
    by (rule self_energy_not_reads)
qed

theorem self_energy_off_diagonal_witness:
  "se_reads [[-5, 0, 0, 0, 1.0], [-4, 0, 0, 0, 1.5]] [[-5, 0, 0, 0, 1.0, 2.0], [-4, 0, 0, 0, 1.5, 2.5]]
         [[-5, 7, 8], [-4, 10, 11]] [[-5, 7, 8], [-4, 10, 11]]
   \<and> self_energy 2 [[-5, 0, 0, 0, 1.0], [-4, 0, 0, 0, 1.5]] [[-5, 0, 0, 0, 1.0, 2.0], [-4, 0, 0, 0, 1.5, 2.5]] False
        (Some [[-5, 7, 8], [-4, 10, 11]]) (Some [[-5, 7, 8], [-4, 10, 11]])
       = Inl (SystemExit ''Implementation not complete...'')
   \<and> \<not> se_reads [[-5, 0, 0, 0, 1.0, 2.0], [-4, 0, 0, 0, 1.5, 2.5]]
         [[-5, 0, 0, 0, 1.0, 2.0], [-4, 0, 0, 0, 1.5, 2.5], [-3, 0, 0, 0, 1.0, 1.0]]
         [[-5, 7, 8], [-4, 10, 11]] [[-5, 7, 8], [-4, 10, 11]]
   \<and> self_energy 2 [[-5, 0, 0, 0, 1.0, 2.0], [-4, 0, 0, 0, 1.5, 2.5]]
         [[-5, 0, 0, 0, 1.0, 2.0], [-4, 0, 0, 0, 1.5, 2.5], [-3, 0, 0, 0, 1.0, 1.0]] False
        (Some [[-5, 7, 8], [-4, 10, 11]]) (Some [[-5, 7, 8], [-4, 10, 11]])
       \<noteq> Inl (SystemExit ''Implementation not complete...'')"
proof -
  let ?re5 = "[[-5, 0, 0, 0, 1.0], [-4, 0, 0, 0, 1.5::real]]"
  let ?re = "[[-5, 0, 0, 0, 1.0, 2.0], [-4, 0, 0, 0, 1.5, 2.5::real]]"
  let ?im3 = "[[-5, 0, 0, 0, 1.0, 2.0], [-4, 0, 0, 0, 1.5, 2.5], [-3, 0, 0, 0, 1.0, 1.0::real]]"
  let ?off = "[[-5, 7, 8], [-4, 10, 11::real]]"
  have ok: "se_reads ?re5 ?re ?off ?off"
    by (simp add: se_reads_def reads2d_def table_ok_def ncols_def bcast_def)
  have no: "\<not> se_reads ?re ?im3 ?off ?off"
    by (simp add: se_reads_def)
  show ?thesis
    using ok no self_energy_off_diagonal[of 2 ?re5 ?re False ?off ?off]
      self_energy_off_diagonal[of 2 ?re ?im3 False ?off ?off]
    by blast
qed

subsection \<open>Reading the mask\<close>

lemma grep_scan_skip:
  "\<forall>x \<in> set pre. \<not> contains p x \<Longrightarrow>
   \<exists>g'. grep_scan n p 0 False g (pre @ xs) = grep_scan n p 0 False g' xs"
  by (induction pre arbitrary: g) auto

lemma grep_scan_context:
  "m \<le> ctx \<Longrightarrow> ctx \<le> n \<Longrightarrow> take m (grep_scan n p ctx True False ls) = take m ls"
proof (induction ls arbitrary: m ctx)
  case Nil
  then show ?case by simp
next
  case (Cons l ls)
  show ?case
  proof (cases m)
    case 0
    then show ?thesis by simp
  next
    case (Suc k)
    then show ?thesis using Cons.prems Cons.IH[of k n] Cons.IH[of k "ctx - 1"] by auto
  qed
qed

lemma grep_A_first:
  assumes "\<forall>x \<in> set pre. \<not> contains p x" "contains p l"
  shows "take (Suc n) (grep_A n p (pre @ l # rest)) = l # take n rest"
proof -
  obtain g' where "grep_scan n p 0 False False (pre @ l # rest) = grep_scan n p 0 False g' (l # rest)"
    using grep_scan_skip[OF assms(1)] by blast
  then show ?thesis
    using assms(2) by (simp add: grep_A_def grep_scan_context)
qed

lemma grep_A_none: "\<forall>x \<in> set ls. \<not> contains p x \<Longrightarrow> grep_scan n p 0 False g ls = []"
  by (induction ls arbitrary: g) auto

lemma mask_cmd_block:
  assumes "\<forall>x \<in> set pre. \<not> contains search_phrase x" "contains search_phrase l"
    "length body = 2 * norb"
  shows "mask_cmd norb (pre @ l # body @ post) = (0, body)"
  using assms(3) by (simp add: mask_cmd_def tail_lines_def grep_A_first[OF assms(1,2)])

lemma mask_cmd_absent:
  assumes "\<forall>x \<in> set out. \<not> contains search_phrase x"
  shows "mask_cmd norb out = (0, [])"
  by (simp add: mask_cmd_def tail_lines_def grep_A_def grep_A_none[OF assms])

lemma parse_int_bits: "parse_int ''0'' = Some 0" "parse_int ''1'' = Some 1"
  by (simp_all add: parse_int_def parse_nat_def)

lemma int_array_bits:
  assumes "set ts \<subseteq> {''0'', ''1''}"
  shows "int_array ts = Inr (map (\<lambda>t. if t = ''1'' then 1 else 0) ts)"
proof -
  have "those (map parse_int ts) = Some (map (\<lambda>t. if t = ''1'' then 1 else 0) ts)"
    using assms by (induction ts) (auto simp: parse_int_bits)
  then show ?thesis by (simp add: int_array_def)
qed

lemma concat_block:
  "i < length xss \<Longrightarrow> \<forall>xs \<in> set xss. length xs = c \<Longrightarrow>
   take c (drop (i * c) (concat xss)) = xss ! i"
proof (induction xss arbitrary: i)
  case Nil
  then show ?case by simp
next
  case (Cons xs xss)
  then show ?case by (cases i) (auto simp: add.commute)
qed

lemma length_concat_const:
  "\<forall>xs \<in> set xss. length xs = c \<Longrightarrow> length (concat xss) = length xss * c"
  by (induction xss) auto

lemma reshape_concat:
  assumes "length xss = r" "\<forall>xs \<in> set xss. length xs = c"
  shows "reshape r c (concat xss) = Inr xss"
  using assms
  by (auto simp: reshape_def length_concat_const concat_block intro!: nth_equalityI)

lemma read_mask_absent:
  assumes "\<forall>x \<in> set out. \<not> contains search_phrase x" "0 < norb"
  shows "read_mask norb spinpol out = Inl ValueError"
  using assms(2)
  by (simp add: read_mask_def mask_cmd_absent[OF assms(1)] check_output_def int_array_def reshape_def)

text \<open>
  C3, as stated, fails without spin polarisation. With one orbital, a log whose marker
  line is followed by the single line \<^verbatim>\<open>1\<close> and by other text has a mask in the claimed
  reading, and \<open>read_mask\<close> raises \<^verbatim>\<open>ValueError\<close>, since it parses two lines. A log
  whose marker line is followed by the two lines \<^verbatim>\<open>0 1\<close> and \<^verbatim>\<open>1 0\<close> gives the mask
  \<open>[[False]]\<close>, and has no mask in the claimed reading.
\<close>

theorem read_mask_counterexample:
  "read_mask 1 False [''dumpdata: Mask of the printed off-diagonal elements:'', ''1'', ''done''] = Inl ValueError
   \<and> read_mask_as_claimed 1 False [''dumpdata: Mask of the printed off-diagonal elements:'', ''1'', ''done''] = Inr [[True]]
   \<and> read_mask 1 False [''dumpdata: Mask of the printed off-diagonal elements:'', ''0 1'', ''1 0''] = Inr [[False]]
   \<and> read_mask_as_claimed 1 False [''dumpdata: Mask of the printed off-diagonal elements:'', ''0 1'', ''1 0''] = Inl ValueError"
  by code_simp

text \<open>
  C3, amended. With or without spin polarisation, \<open>read_mask\<close> takes the \<open>2 * norb\<close>
  lines after the first line that contains the phrase; when each of them has \<open>2 * norb\<close>
  tokens \<^verbatim>\<open>0\<close> or \<^verbatim>\<open>1\<close>, the mask is the \<open>nc\<close> by \<open>nc\<close> top-left block of the
  matrix of those tokens, true where the token is \<^verbatim>\<open>1\<close>: the whole matrix under spin
  polarisation, the \<open>norb\<close> by \<open>norb\<close> block without.
\<close>

theorem read_mask_block:
  assumes "\<forall>x \<in> set pre. \<not> contains search_phrase x"
    and "contains search_phrase l"
    and "length body = 2 * norb"
    and "\<forall>x \<in> set body. length (split x) = 2 * norb \<and> set (split x) \<subseteq> {''0'', ''1''}"
    and "nc = (if spinpol then 2 * norb else norb)"
  shows "read_mask norb spinpol (pre @ l # body @ post) =
           Inr (map (\<lambda>i. map (\<lambda>j. split (body ! i) ! j = ''1'') [0..<nc]) [0..<nc])"
proof -
  let ?bit = "\<lambda>t. if t = ''1'' then 1 else (0::int)"
  let ?rows = "map (\<lambda>x. map ?bit (split x)) body"
  have toks: "set (concat (map split body)) \<subseteq> {''0'', ''1''}"
    using assms(4) by auto
  have arr: "int_array (concat (map split body)) = Inr (concat ?rows)"
    by (simp add: int_array_bits[OF toks] map_concat o_def)
  have rs: "reshape (2 * norb) (2 * norb) (concat ?rows) = Inr ?rows"
    using assms(3,4) by (intro reshape_concat) auto
  have m: "map (map (\<lambda>x. x = 1)) ?rows = map (\<lambda>x. map (\<lambda>t. t = ''1'') (split x)) body"
    by (simp add: o_def)
  have full: "map (\<lambda>x. map (\<lambda>t. t = ''1'') (split x)) body
      = map (\<lambda>i. map (\<lambda>j. split (body ! i) ! j = ''1'') [0..<2 * norb]) [0..<2 * norb]"
    using assms(3,4) by (auto intro!: nth_equalityI)
  have cut: "map (take norb) (take norb (map (\<lambda>x. map (\<lambda>t. t = ''1'') (split x)) body))
      = map (\<lambda>i. map (\<lambda>j. split (body ! i) ! j = ''1'') [0..<norb]) [0..<norb]"
    using assms(3,4) by (auto intro!: nth_equalityI)
  show ?thesis
    using full cut assms(5)
    by (simp add: read_mask_def mask_cmd_block[OF assms(1,2,3)] check_output_def arr rs m Let_def
        del: map_map)
qed

theorem read_mask_block_witness:
  "read_mask 1 False ([''RSPt log''] @ ''dumpdata: Mask of the printed off-diagonal elements:'' # [''0 1'', ''1 0''] @ [''done''])
     = Inr [[False]]
   \<and> read_mask 1 True ([''RSPt log''] @ ''dumpdata: Mask of the printed off-diagonal elements:'' # [''0 1'', ''1 0''] @ [''done''])
     = Inr [[False, True], [True, False]]"
proof -
  have a: "\<forall>x \<in> set [''RSPt log'']. \<not> contains search_phrase x" by (simp add: search_phrase_def)
  have b: "contains search_phrase ''dumpdata: Mask of the printed off-diagonal elements:''"
    by (simp add: search_phrase_def)
  have c: "length [''0 1'', ''1 0''] = 2 * 1" by simp
  have d: "\<forall>x \<in> set [''0 1'', ''1 0'']. length (split x) = 2 * 1 \<and> set (split x) \<subseteq> {''0'', ''1''}"
    by (simp add: split_def is_space_def)
  show ?thesis
    using read_mask_block[OF a b c d, of 1 False "[''done'']"] read_mask_block[OF a b c d, of 2 True "[''done'']"]
    by (simp add: split_def is_space_def upt_rec)
qed

subsection \<open>The off-diagonal path of the hybridization reader\<close>

lemma positions_set: "set (positions nc) = {p. fst p < nc \<and> snd p < nc}"
  by (auto simp: positions_def)

lemma positions_distinct: "distinct (positions nc)"
  unfolding positions_def
  by (rule distinct_concat) (auto simp: distinct_map inj_on_def)

lemma off_scaled_ncols: "table_ok a \<Longrightarrow> ncols (scale c (cols_from lo a)) = ncols a - lo"
  by (cases a) (auto simp: table_ok_def ncols_def scale_def cols_from_def)

lemma off_scaled_column:
  assumes "table_ok a" "Suc k < ncols a"
  shows "column k (scale c (cols_from 1 a)) = Inr (map (\<lambda>m. c * a ! m ! Suc k) [0..<length a])"
proof -
  have "\<And>m. m < length a \<Longrightarrow> length (a ! m) = ncols a"
    using assms(1) by (simp add: table_ok_def)
  then have "map (\<lambda>r. r ! k) (scale c (cols_from 1 a)) = map (\<lambda>m. c * a ! m ! Suc k) [0..<length a]"
    using assms(2) by (auto simp: scale_def cols_from_def intro!: nth_equalityI)
  moreover have "k < ncols (scale c (cols_from 1 a))"
    using assms by (simp add: off_scaled_ncols del: One_nat_def)
  ultimately show ?thesis
    by (simp add: column_def del: One_nat_def)
qed

lemma diag_matrix_shape:
  "length (diag_matrix nc nw d) = nc"
  "i < nc \<Longrightarrow> length (diag_matrix nc nw d ! i) = nc"
  "i < nc \<Longrightarrow> j < nc \<Longrightarrow> diag_matrix nc nw d ! i ! j = (if i = j then d ! i else replicate nw 0)"
  by (simp_all add: diag_matrix_def)

lemma diag_table_row: "i < nc \<Longrightarrow> length (diag_table eV nc re im ! i) = length re"
  by (simp add: diag_table_def)

lemma fill_off_valid:
  assumes "off_ok nw (count_true msk nc) ro io"
    and "\<forall>i<nc. length (d ! i) = nw"
  shows "\<exists>h. fill_off (scale eV (cols_from 1 ro)) (scale eV (cols_from 1 io)) msk nc
                (diag_matrix nc nw d) = Inr (h, count_true msk nc)
           \<and> length h = nc
           \<and> (\<forall>i<nc. length (h ! i) = nc)
           \<and> (\<forall>i<nc. \<forall>j<nc. h ! i ! j =
                 (if msk ! i ! j
                  then map2 (+) (diag_matrix nc nw d ! i ! j)
                         (off_column eV ro io (rank_in msk (positions nc) (i, j)))
                  else diag_matrix nc nw d ! i ! j))"
proof -
  let ?re = "scale eV (cols_from 1 ro)" and ?im = "scale eV (cols_from 1 io)"
  let ?h = "diag_matrix nc nw d"
  let ?A = "\<lambda>k. map (\<lambda>m. eV * ro ! m ! Suc k) [0..<length ro]"
  let ?B = "\<lambda>k. map (\<lambda>m. eV * io ! m ! Suc k) [0..<length io]"
  have ok: "table_ok ro" "table_ok io" "length ro = nw" "length io = nw"
      "count_true msk nc < ncols ro" "count_true msk nc < ncols io"
    using assms(1) by (simp_all add: off_ok_def)
  have cells: "\<forall>p \<in> set (positions nc). fst p < length ?h \<and> snd p < length (?h ! fst p)
           \<and> length (?h ! fst p ! snd p) = nw"
    using assms(2) by (auto simp: positions_set diag_matrix_shape)
  have cols: "\<forall>k < 0 + length (filter (off_cell msk) (positions nc)).
           column k ?re = Inr (?A k) \<and> column k ?im = Inr (?B k)
           \<and> length (?A k) = nw \<and> length (?B k) = nw"
    using ok by (auto simp: count_true_def off_scaled_column simp del: One_nat_def)
  obtain h where h: "foldE (\<lambda>p. add_off ?re ?im msk (snd p) (fst p)) (positions nc) (?h, 0)
              = Inr (h, 0 + length (filter (off_cell msk) (positions nc)))"
      "length h = length ?h" "\<forall>i. length (h ! i) = length (?h ! i)"
      "\<forall>i j. i < length ?h \<longrightarrow> j < length (?h ! i) \<longrightarrow>
                h ! i ! j =
                  (if (i, j) \<in> set (positions nc) \<and> off_cell msk (i, j)
                   then map2 (+) (?h ! i ! j)
                          (map2 (\<lambda>x y. complex_of_real x + complex_of_real y * \<i>)
                             (?A (0 + rank_in msk (positions nc) (i, j)))
                             (?B (0 + rank_in msk (positions nc) (i, j))))
                   else ?h ! i ! j)"
    using fill_flat_inv[OF positions_distinct cells cols] by blast
  have zip: "\<And>k. map2 (\<lambda>x y. complex_of_real x + complex_of_real y * \<i>) (?A k) (?B k)
       = off_column eV ro io k"
    using ok(3,4) by (auto simp: off_column_def intro!: nth_equalityI)
  have 1: "fill_off ?re ?im msk nc ?h = Inr (h, count_true msk nc)"
    using h(1) by (simp add: fill_off_def fill_off_flat positions_def count_true_def)
  have 2: "length h = nc" using h(2) by (simp add: diag_matrix_shape)
  have 3: "\<forall>i<nc. length (h ! i) = nc" using h(3) by (simp add: diag_matrix_shape)
  have 4: "\<forall>i<nc. \<forall>j<nc. h ! i ! j =
                 (if msk ! i ! j
                  then map2 (+) (?h ! i ! j) (off_column eV ro io (rank_in msk (positions nc) (i, j)))
                  else ?h ! i ! j)"
  proof (intro allI impI)
    fix i j assume ij: "i < nc" "j < nc"
    then have "i < length ?h" "j < length (?h ! i)" "(i, j) \<in> set (positions nc)"
      by (simp_all add: diag_matrix_shape positions_set)
    then show "h ! i ! j =
                 (if msk ! i ! j
                  then map2 (+) (?h ! i ! j) (off_column eV ro io (rank_in msk (positions nc) (i, j)))
                  else ?h ! i ! j)"
      using h(4) zip by (simp add: off_cell_def)
  qed
  show ?thesis using 1 2 3 4 by blast
qed

lemma off_ok_loads:
  assumes "off_ok nw t ro io"
  shows "loadtxt (Some ro) = Inr ro" "loadtxt (Some io) = Inr io" "is2d ro" "is2d io"
proof -
  have ok: "table_ok ro" "table_ok io" "2 \<le> ncols ro" "2 \<le> ncols io"
    using assms by (simp_all add: off_ok_def)
  show "loadtxt (Some ro) = Inr ro" using ok(1) by (rule table_ok_loadtxt)
  show "loadtxt (Some io) = Inr io" using ok(2) by (rule table_ok_loadtxt)
  show "is2d ro" using ok(1,3) by (rule table_ok_is2d)
  show "is2d io" using ok(2,4) by (rule table_ok_is2d)
qed

lemma hyb_off_valid:
  assumes "diag_ok nc re im" and "nc = (if spinpol then 2 * norb else norb)"
    and "read_mask norb spinpol out = Inr msk"
    and "off_ok (length re) (count_true msk nc) ro io"
  shows "\<exists>h. hyb eV re im norb spinpol (Some ro) (Some io) (Some out) full
               = Inr (map (\<lambda>r. eV * r ! 0) re, Full h)
           \<and> fill_off (scale eV (cols_from 1 ro)) (scale eV (cols_from 1 io)) msk nc
                (diag_matrix nc (length re) (diag_table eV nc re im)) = Inr (h, count_true msk nc)
           \<and> length h = nc
           \<and> (\<forall>i<nc. length (h ! i) = nc)
           \<and> (\<forall>i<nc. \<forall>j<nc. h ! i ! j =
                 (if msk ! i ! j
                  then map2 (+) (diag_matrix nc (length re) (diag_table eV nc re im) ! i ! j)
                         (off_column eV ro io (rank_in msk (positions nc) (i, j)))
                  else diag_matrix nc (length re) (diag_table eV nc re im) ! i ! j))"
proof -
  let ?d = "diag_table eV nc re im"
  have rows: "\<forall>i<nc. length (?d ! i) = length re" by (simp add: diag_table_row)
  obtain h where h: "fill_off (scale eV (cols_from 1 ro)) (scale eV (cols_from 1 io)) msk nc
                (diag_matrix nc (length re) ?d) = Inr (h, count_true msk nc)"
      "length h = nc" "\<forall>i<nc. length (h ! i) = nc"
      "\<forall>i<nc. \<forall>j<nc. h ! i ! j =
                 (if msk ! i ! j
                  then map2 (+) (diag_matrix nc (length re) ?d ! i ! j)
                         (off_column eV ro io (rank_in msk (positions nc) (i, j)))
                  else diag_matrix nc (length re) ?d ! i ! j)"
    using fill_off_valid[OF assms(4) rows, of eV] by blast
  have f: "foldE (set_diagonal ?d) [0..<nc] (zeros3 nc (length re))
      = Inr (diag_matrix nc (length re) ?d)"
    by (rule set_diagonal_zeros) (simp add: diag_table_def)
  have "hyb eV re im norb spinpol (Some ro) (Some io) (Some out) full
               = Inr (map (\<lambda>r. eV * r ! 0) re, Full h)"
    by (simp add: hyb_on_valid[OF assms(1,2)] hyb_off_def off_ok_loads[OF assms(4)] assms(3) f h(1)
        del: One_nat_def)
  then show ?thesis using h by blast
qed




lemma fill_flat_counts:
  "n + length (filter (off_cell msk) ps) \<le> ncols a \<Longrightarrow>
   n + length (filter (off_cell msk) ps) \<le> ncols b \<Longrightarrow>
   foldE (\<lambda>p. add_off a b msk (snd p) (fst p)) ps (h, n) = Inl ValueError
   \<or> (\<exists>h'. foldE (\<lambda>p. add_off a b msk (snd p) (fst p)) ps (h, n)
              = Inr (h', n + length (filter (off_cell msk) ps)))"
proof (induction ps arbitrary: h n)
  case Nil
  then show ?case by simp
next
  case (Cons p ps)
  show ?case
  proof (cases "off_cell msk p")
    case False
    then show ?thesis
      using Cons.IH[of n h] Cons.prems by (simp add: add_off_false)
  next
    case True
    then have n: "n < ncols a" "n < ncols b" using Cons.prems by simp_all
    have "add_off a b msk (snd p) (fst p) (h, n) = Inl ValueError
        \<or> (\<exists>h1. add_off a b msk (snd p) (fst p) (h, n) = Inr (h1, Suc n))"
      using True n by (simp add: add_off_def off_cell_def column_def)
    then show ?thesis
    proof
      assume "add_off a b msk (snd p) (fst p) (h, n) = Inl ValueError"
      then show ?thesis by simp
    next
      assume "\<exists>h1. add_off a b msk (snd p) (fst p) (h, n) = Inr (h1, Suc n)"
      then obtain h1 where h1: "add_off a b msk (snd p) (fst p) (h, n) = Inr (h1, Suc n)" by blast
      show ?thesis
        using Cons.IH[of "Suc n" h1] Cons.prems True h1 by simp
    qed
  qed
qed

lemma fill_off_counts:
  assumes "count_true msk nc \<le> ncols a" "count_true msk nc \<le> ncols b"
  shows "fill_off a b msk nc h \<noteq> Inl IndexError
         \<and> (\<forall>h' n. fill_off a b msk nc h = Inr (h', n) \<longrightarrow> n = count_true msk nc)"
proof -
  have "foldE (\<lambda>p. add_off a b msk (snd p) (fst p)) (positions nc) (h, 0) = Inl ValueError
   \<or> (\<exists>h'. foldE (\<lambda>p. add_off a b msk (snd p) (fst p)) (positions nc) (h, 0)
              = Inr (h', 0 + length (filter (off_cell msk) (positions nc))))"
    using assms by (intro fill_flat_counts) (simp_all add: count_true_def)
  then show ?thesis
    by (auto simp: fill_off_def fill_off_flat positions_def count_true_def)
qed

lemma rank_in_less:
  "q \<in> set ps \<Longrightarrow> off_cell msk q \<Longrightarrow> rank_in msk ps q < length (filter (off_cell msk) ps)"
  unfolding rank_in_def by (induction ps) auto

lemma off_column_prefix:
  assumes "map (take (Suc t)) ro' = map (take (Suc t)) ro"
    and "map (take (Suc t)) io' = map (take (Suc t)) io" and "k < t"
    and "length io = length ro"
  shows "off_column eV ro' io' k = off_column eV ro io k"
proof -
  have len: "length ro' = length ro" "length io' = length io"
    using assms(1,2) by (metis length_map)+
  have "\<And>m. m < length ro \<Longrightarrow> ro' ! m ! Suc k = ro ! m ! Suc k"
  proof -
    fix m assume m: "m < length ro"
    have "take (Suc t) (ro' ! m) = take (Suc t) (ro ! m)"
      using assms(1) m len by (metis nth_map)
    then have "take (Suc t) (ro' ! m) ! Suc k = take (Suc t) (ro ! m) ! Suc k" by simp
    then show "ro' ! m ! Suc k = ro ! m ! Suc k" using assms(3) by simp
  qed
  moreover have "\<And>m. m < length io \<Longrightarrow> io' ! m ! Suc k = io ! m ! Suc k"
  proof -
    fix m assume m: "m < length io"
    have "take (Suc t) (io' ! m) = take (Suc t) (io ! m)"
      using assms(2) m len by (metis nth_map)
    then have "take (Suc t) (io' ! m) ! Suc k = take (Suc t) (io ! m) ! Suc k" by simp
    then show "io' ! m ! Suc k = io ! m ! Suc k" using assms(3) by simp
  qed
  ultimately show ?thesis
    using len assms(4) unfolding off_column_def
    by (auto intro!: nth_equalityI)
qed

lemma fill_flat_short:
  "n \<le> ncols a \<Longrightarrow> n \<le> ncols b \<Longrightarrow>
   ncols a < n + length (filter (off_cell msk) ps) \<or> ncols b < n + length (filter (off_cell msk) ps) \<Longrightarrow>
   foldE (\<lambda>p. add_off a b msk (snd p) (fst p)) ps (h, n) = Inl IndexError
   \<or> foldE (\<lambda>p. add_off a b msk (snd p) (fst p)) ps (h, n) = Inl ValueError"
proof (induction ps arbitrary: h n)
  case Nil
  then show ?case by simp
next
  case (Cons p ps)
  show ?case
  proof (cases "off_cell msk p")
    case False
    then show ?thesis
      using Cons.IH[of n h] Cons.prems by (simp add: add_off_false)
  next
    case True
    show ?thesis
    proof (cases "n < ncols a \<and> n < ncols b")
      case False
      then have "add_off a b msk (snd p) (fst p) (h, n) = Inl IndexError"
        using True by (auto simp: add_off_def off_cell_def column_def)
      then show ?thesis by simp
    next
      case inb: True
      have "add_off a b msk (snd p) (fst p) (h, n) = Inl ValueError
        \<or> (\<exists>h1. add_off a b msk (snd p) (fst p) (h, n) = Inr (h1, Suc n))"
        using True inb by (simp add: add_off_def off_cell_def column_def)
      then show ?thesis
      proof
        assume "add_off a b msk (snd p) (fst p) (h, n) = Inl ValueError"
        then show ?thesis by simp
      next
        assume "\<exists>h1. add_off a b msk (snd p) (fst p) (h, n) = Inr (h1, Suc n)"
        then obtain h1 where h1: "add_off a b msk (snd p) (fst p) (h, n) = Inr (h1, Suc n)" by blast
        have "foldE (\<lambda>p. add_off a b msk (snd p) (fst p)) ps (h1, Suc n) = Inl IndexError
           \<or> foldE (\<lambda>p. add_off a b msk (snd p) (fst p)) ps (h1, Suc n) = Inl ValueError"
          using Cons.prems True inb by (intro Cons.IH) auto
        then show ?thesis using h1 by simp
      qed
    qed
  qed
qed

lemma upd_cell_length: "length (h[i := (h ! i)[j := v]]) = length h"
  by simp

lemma upd_cell_row: "i < length h \<Longrightarrow> length (h[i := (h ! i)[j := v]] ! i') = length (h ! i')"
  by (cases "i' = i") simp_all

lemma upd_cell_nth:
  "i < length h \<Longrightarrow> j < length (h ! i) \<Longrightarrow> i' < length h \<Longrightarrow> j' < length (h ! i') \<Longrightarrow>
   h[i := (h ! i)[j := v]] ! i' ! j' = (if i' = i \<and> j' = j then v else h ! i' ! j')"
  by (auto simp: nth_list_update)

lemma fill_flat_no_value_error:
  assumes "\<forall>p \<in> set ps. fst p < length h \<and> snd p < length (h ! fst p)
           \<and> length (h ! fst p ! snd p) = nw"
    and "length a = nw" and "length b = nw"
  shows "foldE (\<lambda>p. add_off a b msk (snd p) (fst p)) ps (h, n) \<noteq> Inl ValueError"
  using assms(1)
proof (induction ps arbitrary: h n)
  case Nil
  then show ?case by simp
next
  case (Cons p ps)
  show ?case
  proof (cases "off_cell msk p")
    case False
    then show ?thesis
      using Cons.IH[of h n] Cons.prems by (simp add: add_off_false)
  next
    case True
    show ?thesis
    proof (cases "n < ncols a \<and> n < ncols b")
      case False
      then have "add_off a b msk (snd p) (fst p) (h, n) = Inl IndexError"
        using True by (auto simp: add_off_def off_cell_def column_def)
      then show ?thesis by simp
    next
      case inb: True
      let ?c = "map2 (\<lambda>x y. complex_of_real x + complex_of_real y * \<i>)
                  (map (\<lambda>r. r ! n) a) (map (\<lambda>r. r ! n) b)"
      let ?v = "map2 (+) (h ! fst p ! snd p) ?c"
      let ?h1 = "h[fst p := (h ! fst p)[snd p := ?v]]"
      have pin: "fst p < length h" "snd p < length (h ! fst p)" "length (h ! fst p ! snd p) = nw"
        using Cons.prems by auto
      have cols: "column n a = Inr (map (\<lambda>r. r ! n) a)" "column n b = Inr (map (\<lambda>r. r ! n) b)"
        using inb by (simp_all add: column_def)
      have step: "add_off a b msk (snd p) (fst p) (h, n) = Inr (?h1, Suc n)"
        using True cols _ _ pin(3) by (rule add_off_true) (simp_all add: assms(2,3))
      have lv: "length ?v = nw" using pin(3) assms(2,3) by simp
      have inv: "\<forall>q \<in> set ps. fst q < length ?h1 \<and> snd q < length (?h1 ! fst q)
           \<and> length (?h1 ! fst q ! snd q) = nw"
      proof
        fix q assume "q \<in> set ps"
        then have qq: "fst q < length h" "snd q < length (h ! fst q)"
            "length (h ! fst q ! snd q) = nw"
          using Cons.prems by auto
        have "?h1 ! fst q ! snd q = (if fst q = fst p \<and> snd q = snd p then ?v else h ! fst q ! snd q)"
          using pin(1,2) qq(1,2) by (rule upd_cell_nth)
        then have "length (?h1 ! fst q ! snd q) = nw" using lv qq(3) by simp
        moreover have "length (?h1 ! fst q) = length (h ! fst q)" using pin(1) by (rule upd_cell_row)
        ultimately show "fst q < length ?h1 \<and> snd q < length (?h1 ! fst q)
           \<and> length (?h1 ! fst q ! snd q) = nw"
          using qq(1,2) by simp
      qed
      have "foldE (\<lambda>p. add_off a b msk (snd p) (fst p)) ps (?h1, Suc n) \<noteq> Inl ValueError"
        using inv by (rule Cons.IH)
      then show ?thesis using step by simp
    qed
  qed
qed

lemma fill_off_short:
  assumes "ncols a < count_true msk nc \<or> ncols b < count_true msk nc"
  shows "fill_off a b msk nc h = Inl IndexError \<or> fill_off a b msk nc h = Inl ValueError"
proof -
  have "foldE (\<lambda>p. add_off a b msk (snd p) (fst p)) (positions nc) (h, 0) = Inl IndexError
   \<or> foldE (\<lambda>p. add_off a b msk (snd p) (fst p)) (positions nc) (h, 0) = Inl ValueError"
    using assms by (intro fill_flat_short) (simp_all add: count_true_def)
  then show ?thesis
    by (simp add: fill_off_def fill_off_flat positions_def)
qed

lemma fill_off_no_value_error:
  assumes "length h = nc" "\<forall>i<nc. length (h ! i) = nc" "\<forall>i<nc. \<forall>j<nc. length (h ! i ! j) = nw"
    and "length a = nw" and "length b = nw"
  shows "fill_off a b msk nc h \<noteq> Inl ValueError"
proof -
  have "\<forall>p \<in> set (positions nc). fst p < length h \<and> snd p < length (h ! fst p)
           \<and> length (h ! fst p ! snd p) = nw"
    using assms(1,2,3) by (auto simp: positions_set)
  then have "foldE (\<lambda>p. add_off a b msk (snd p) (fst p)) (positions nc) (h, 0) \<noteq> Inl ValueError"
    using assms(4,5) by (rule fill_flat_no_value_error)
  then show ?thesis
    by (simp add: fill_off_def fill_off_flat positions_def)
qed

lemma rank_in_onto:
  "distinct ps \<Longrightarrow> k < length (filter (off_cell msk) ps) \<Longrightarrow>
   \<exists>q \<in> set ps. off_cell msk q \<and> rank_in msk ps q = k"
proof (induction ps arbitrary: k)
  case Nil
  then show ?case by simp
next
  case (Cons p ps)
  show ?case
  proof (cases "off_cell msk p")
    case False
    have "\<exists>q \<in> set ps. off_cell msk q \<and> rank_in msk ps q = k"
      using Cons.prems False by (intro Cons.IH) simp_all
    then obtain q where q: "q \<in> set ps" "off_cell msk q" "rank_in msk ps q = k"
      by blast
    then have "q \<noteq> p" using False by auto
    then have "rank_in msk (p # ps) q = k" using q(3) False by (simp add: rank_in_def)
    then show ?thesis using q by auto
  next
    case True
    show ?thesis
    proof (cases k)
      case 0
      have "rank_in msk (p # ps) p = 0" by (simp add: rank_in_def)
      then show ?thesis using True 0 by auto
    next
      case (Suc k')
      have "\<exists>q \<in> set ps. off_cell msk q \<and> rank_in msk ps q = k'"
        using Cons.prems True Suc by (intro Cons.IH) simp_all
      then obtain q where q: "q \<in> set ps" "off_cell msk q" "rank_in msk ps q = k'"
        by blast
      then have "q \<noteq> p" using Cons.prems(1) by auto
      then have "rank_in msk (p # ps) q = k" using q(3) True Suc by (simp add: rank_in_def)
      then show ?thesis using q by auto
    qed
  qed
qed

lemma rank_onto_cells:
  assumes "k < count_true msk nc"
  shows "\<exists>i<nc. \<exists>j<nc. msk ! i ! j \<and> rank_in msk (positions nc) (i, j) = k"
proof -
  have "\<exists>q \<in> set (positions nc). off_cell msk q \<and> rank_in msk (positions nc) q = k"
    using assms by (intro rank_in_onto positions_distinct) (simp add: count_true_def)
  then obtain q where q: "q \<in> set (positions nc)" "off_cell msk q" "rank_in msk (positions nc) q = k"
    by blast
  have 1: "fst q < nc" "snd q < nc" using q(1) by (simp_all add: positions_set)
  have 2: "msk ! fst q ! snd q" using q(2) by (simp add: off_cell_def)
  have 3: "rank_in msk (positions nc) (fst q, snd q) = k" using q(3) by simp
  show ?thesis using 1 2 3 by blast
qed

lemma scaled_length: "length (scale c (cols_from lo a)) = length a"
  by (simp add: scale_def cols_from_def)

lemma hyb_off_short:
  assumes "diag_ok nc re im" and "nc = (if spinpol then 2 * norb else norb)"
    and "read_mask norb spinpol out = Inr msk"
    and "off_short (length re) (count_true msk nc) ro io"
  shows "hyb eV re im norb spinpol (Some ro) (Some io) (Some out) full = Inl IndexError"
proof -
  let ?d = "diag_table eV nc re im"
  let ?dm = "diag_matrix nc (length re) ?d"
  let ?a = "scale eV (cols_from 1 ro)" and ?b = "scale eV (cols_from 1 io)"
  have ok: "table_ok ro" "table_ok io" "length ro = length re" "length io = length re"
     "2 \<le> ncols ro" "2 \<le> ncols io" "ncols ro \<le> count_true msk nc \<or> ncols io \<le> count_true msk nc"
    using assms(4) by (simp_all add: off_short_def)
  have l: "loadtxt (Some ro) = Inr ro" "loadtxt (Some io) = Inr io" "is2d ro" "is2d io"
    using ok by (simp_all add: table_ok_loadtxt table_ok_is2d)
  have f: "foldE (set_diagonal ?d) [0..<nc] (zeros3 nc (length re)) = Inr ?dm"
    by (rule set_diagonal_zeros) (simp add: diag_table_def)
  have "ncols ?a < count_true msk nc \<or> ncols ?b < count_true msk nc"
    using ok by (auto simp: off_scaled_ncols simp del: One_nat_def)
  then have e: "fill_off ?a ?b msk nc ?dm = Inl IndexError \<or> fill_off ?a ?b msk nc ?dm = Inl ValueError"
    by (rule fill_off_short)
  have "fill_off ?a ?b msk nc ?dm \<noteq> Inl ValueError"
  proof (rule fill_off_no_value_error)
    show "length ?dm = nc" by (simp add: diag_matrix_shape)
    show "\<forall>i<nc. length (?dm ! i) = nc" by (simp add: diag_matrix_shape)
    show "\<forall>i<nc. \<forall>j<nc. length (?dm ! i ! j) = length re"
      by (simp add: diag_matrix_shape diag_table_row)
    show "length ?a = length re" using ok(3) by (simp add: scaled_length)
    show "length ?b = length re" using ok(4) by (simp add: scaled_length)
  qed
  then have "fill_off ?a ?b msk nc ?dm = Inl IndexError" using e by blast
  then show ?thesis
    by (simp add: hyb_on_valid[OF assms(1,2)] hyb_off_def l assms(3) f del: One_nat_def)
qed

text \<open>
  C10. The fill loop reads one data column at every true cell of the mask, column \<open>k\<close>
  at the true cell of rank \<open>k\<close>, and the ranks of the true cells are exactly the numbers
  below \<open>count_true\<close>. When each of the two arrays of data columns has at least
  \<open>count_true\<close> columns, the loop never reads a column out of range and the counter it
  returns is \<open>count_true\<close>; when one of them has fewer, the loop does not return. On
  well-formed input \<open>hyb\<close> returns, every true cell of the result holds its column
  added to what the cell held, and columns of the off-diagonal tables beyond the mesh
  column and the first \<open>count_true\<close> data columns do not change the result; with too
  few data columns \<open>hyb\<close> ends in \<^verbatim>\<open>IndexError\<close>.
\<close>

theorem fill_off_consumes_true_cells:
  "(count_true msk nc \<le> ncols a \<and> count_true msk nc \<le> ncols b \<longrightarrow>
      fill_off a b msk nc h0 \<noteq> Inl IndexError
      \<and> (\<forall>h' n. fill_off a b msk nc h0 = Inr (h', n) \<longrightarrow> n = count_true msk nc))
   \<and> (ncols a < count_true msk nc \<or> ncols b < count_true msk nc \<longrightarrow>
      fill_off a b msk nc h0 = Inl IndexError \<or> fill_off a b msk nc h0 = Inl ValueError)
   \<and> (\<forall>k<count_true msk nc. \<exists>i<nc. \<exists>j<nc. msk ! i ! j \<and> rank_in msk (positions nc) (i, j) = k)
   \<and> (diag_ok nc re im \<and> nc = (if spinpol then 2 * norb else norb)
        \<and> read_mask norb spinpol out = Inr msk \<longrightarrow>
      (off_ok (length re) (count_true msk nc) ro io \<longrightarrow>
         (\<exists>h. fill_off (scale eV (cols_from 1 ro)) (scale eV (cols_from 1 io)) msk nc
                 (diag_matrix nc (length re) (diag_table eV nc re im)) = Inr (h, count_true msk nc)
              \<and> hyb eV re im norb spinpol (Some ro) (Some io) (Some out) full
                  = Inr (map (\<lambda>r. eV * r ! 0) re, Full h)
              \<and> (\<forall>i<nc. \<forall>j<nc. h ! i ! j =
                    (if msk ! i ! j
                     then map2 (+) (diag_matrix nc (length re) (diag_table eV nc re im) ! i ! j)
                            (off_column eV ro io (rank_in msk (positions nc) (i, j)))
                     else diag_matrix nc (length re) (diag_table eV nc re im) ! i ! j))
              \<and> (\<forall>i<nc. \<forall>j<nc. msk ! i ! j \<longrightarrow>
                    rank_in msk (positions nc) (i, j) < count_true msk nc))
         \<and> (off_ok (length re) (count_true msk nc) ro' io'
              \<and> map (take (Suc (count_true msk nc))) ro' = map (take (Suc (count_true msk nc))) ro
              \<and> map (take (Suc (count_true msk nc))) io' = map (take (Suc (count_true msk nc))) io \<longrightarrow>
            hyb eV re im norb spinpol (Some ro') (Some io') (Some out) full
              = hyb eV re im norb spinpol (Some ro) (Some io) (Some out) full))
      \<and> (off_short (length re) (count_true msk nc) ro io \<longrightarrow>
           hyb eV re im norb spinpol (Some ro) (Some io) (Some out) full = Inl IndexError))"
proof (intro conjI impI)
  assume "count_true msk nc \<le> ncols a \<and> count_true msk nc \<le> ncols b"
  then have c: "fill_off a b msk nc h0 \<noteq> Inl IndexError
         \<and> (\<forall>h' n. fill_off a b msk nc h0 = Inr (h', n) \<longrightarrow> n = count_true msk nc)"
    by (intro fill_off_counts) simp_all
  show "fill_off a b msk nc h0 \<noteq> Inl IndexError" using c by blast
  show "\<forall>h' n. fill_off a b msk nc h0 = Inr (h', n) \<longrightarrow> n = count_true msk nc" using c by blast
next
  assume "ncols a < count_true msk nc \<or> ncols b < count_true msk nc"
  then show "fill_off a b msk nc h0 = Inl IndexError \<or> fill_off a b msk nc h0 = Inl ValueError"
    by (rule fill_off_short)
next
  show "\<forall>k<count_true msk nc. \<exists>i<nc. \<exists>j<nc. msk ! i ! j \<and> rank_in msk (positions nc) (i, j) = k"
    using rank_onto_cells by blast
next
  assume v: "diag_ok nc re im \<and> nc = (if spinpol then 2 * norb else norb)
        \<and> read_mask norb spinpol out = Inr msk"
  assume o: "off_ok (length re) (count_true msk nc) ro io"
  have a: "diag_ok nc re im" "nc = (if spinpol then 2 * norb else norb)"
      "read_mask norb spinpol out = Inr msk" "off_ok (length re) (count_true msk nc) ro io"
    using v o by blast+
  let ?dm = "diag_matrix nc (length re) (diag_table eV nc re im)"
  obtain h where h: "hyb eV re im norb spinpol (Some ro) (Some io) (Some out) full
               = Inr (map (\<lambda>r. eV * r ! 0) re, Full h)"
      "fill_off (scale eV (cols_from 1 ro)) (scale eV (cols_from 1 io)) msk nc ?dm
         = Inr (h, count_true msk nc)"
      "length h = nc" "\<forall>i<nc. length (h ! i) = nc"
      "\<forall>i<nc. \<forall>j<nc. h ! i ! j =
                 (if msk ! i ! j
                  then map2 (+) (?dm ! i ! j) (off_column eV ro io (rank_in msk (positions nc) (i, j)))
                  else ?dm ! i ! j)"
    using hyb_off_valid[OF a, of eV full] by blast
  have rk: "\<forall>i<nc. \<forall>j<nc. msk ! i ! j \<longrightarrow> rank_in msk (positions nc) (i, j) < count_true msk nc"
  proof (intro allI impI)
    fix i j assume ij: "i < nc" "j < nc" "msk ! i ! j"
    have "rank_in msk (positions nc) (i, j) < length (filter (off_cell msk) (positions nc))"
      using ij by (intro rank_in_less) (simp_all add: positions_set off_cell_def)
    then show "rank_in msk (positions nc) (i, j) < count_true msk nc"
      by (simp add: count_true_def)
  qed
  show "\<exists>h. fill_off (scale eV (cols_from 1 ro)) (scale eV (cols_from 1 io)) msk nc ?dm
               = Inr (h, count_true msk nc)
           \<and> hyb eV re im norb spinpol (Some ro) (Some io) (Some out) full
               = Inr (map (\<lambda>r. eV * r ! 0) re, Full h)
           \<and> (\<forall>i<nc. \<forall>j<nc. h ! i ! j =
                    (if msk ! i ! j
                     then map2 (+) (?dm ! i ! j)
                            (off_column eV ro io (rank_in msk (positions nc) (i, j)))
                     else ?dm ! i ! j))
           \<and> (\<forall>i<nc. \<forall>j<nc. msk ! i ! j \<longrightarrow>
                    rank_in msk (positions nc) (i, j) < count_true msk nc)"
    using h(1,2,5) rk by blast
  assume e: "off_ok (length re) (count_true msk nc) ro' io'
           \<and> map (take (Suc (count_true msk nc))) ro' = map (take (Suc (count_true msk nc))) ro
           \<and> map (take (Suc (count_true msk nc))) io' = map (take (Suc (count_true msk nc))) io"
  then have b: "off_ok (length re) (count_true msk nc) ro' io'" by simp
  obtain h' where h': "hyb eV re im norb spinpol (Some ro') (Some io') (Some out) full
               = Inr (map (\<lambda>r. eV * r ! 0) re, Full h')"
      "length h' = nc" "\<forall>i<nc. length (h' ! i) = nc"
      "\<forall>i<nc. \<forall>j<nc. h' ! i ! j =
                 (if msk ! i ! j
                  then map2 (+) (?dm ! i ! j) (off_column eV ro' io' (rank_in msk (positions nc) (i, j)))
                  else ?dm ! i ! j)"
    using hyb_off_valid[OF a(1,2,3) b, of eV full] by blast
  have lio: "length io = length ro" using a(4) by (simp add: off_ok_def)
  have cols: "\<And>i j. i < nc \<Longrightarrow> j < nc \<Longrightarrow> msk ! i ! j \<Longrightarrow>
      off_column eV ro' io' (rank_in msk (positions nc) (i, j))
        = off_column eV ro io (rank_in msk (positions nc) (i, j))"
  proof -
    fix i j assume ij: "i < nc" "j < nc" "msk ! i ! j"
    have "rank_in msk (positions nc) (i, j) < count_true msk nc" using rk ij by blast
    then show "off_column eV ro' io' (rank_in msk (positions nc) (i, j))
        = off_column eV ro io (rank_in msk (positions nc) (i, j))"
      using e lio by (intro off_column_prefix[where t = "count_true msk nc"]) simp_all
  qed
  have "h' = h"
  proof (rule nth_equalityI)
    show "length h' = length h" using h(3) h'(2) by simp
    fix i assume "i < length h'"
    then have i: "i < nc" using h'(2) by simp
    show "h' ! i = h ! i"
    proof (rule nth_equalityI)
      show "length (h' ! i) = length (h ! i)" using i h(4) h'(3) by simp
      fix j assume "j < length (h' ! i)"
      then have j: "j < nc" using i h'(3) by simp
      show "h' ! i ! j = h ! i ! j"
        using i j h(5) h'(4) cols by simp
    qed
  qed
  then show "hyb eV re im norb spinpol (Some ro') (Some io') (Some out) full
           = hyb eV re im norb spinpol (Some ro) (Some io) (Some out) full"
    using h(1) h'(1) by simp
next
  assume v: "diag_ok nc re im \<and> nc = (if spinpol then 2 * norb else norb)
        \<and> read_mask norb spinpol out = Inr msk"
  assume s: "off_short (length re) (count_true msk nc) ro io"
  have a: "diag_ok nc re im" "nc = (if spinpol then 2 * norb else norb)"
      "read_mask norb spinpol out = Inr msk"
    using v by blast+
  show "hyb eV re im norb spinpol (Some ro) (Some io) (Some out) full = Inl IndexError"
    using a s by (rule hyb_off_short)
qed

theorem fill_off_consumes_true_cells_witness:
  "count_true [[True, True], [True, False]] 2 = 3
   \<and> ncols (scale 2 (cols_from 1 [[-5, 7, 8, 9, 100], [-4, 10, 11, 12, 200]])) = 4
   \<and> ncols (scale 2 (cols_from 1 [[-5, 1, 2, 3, 300], [-4, 4, 5, 6, 400]])) = 4
   \<and> fill_off (scale 2 (cols_from 1 [[-5, 7, 8, 9, 100], [-4, 10, 11, 12, 200]]))
        (scale 2 (cols_from 1 [[-5, 1, 2, 3, 300], [-4, 4, 5, 6, 400]])) [[True, True], [True, False]] 2
        (zeros3 2 2) \<noteq> Inl IndexError
   \<and> ncols (scale 2 (cols_from 1 [[-5, 7, 8], [-4, 10, 11]])) = 2
   \<and> (fill_off (scale 2 (cols_from 1 [[-5, 7, 8], [-4, 10, 11]]))
        (scale 2 (cols_from 1 [[-5, 1, 2, 3], [-4, 4, 5, 6]])) [[True, True], [True, False]] 2
        (zeros3 2 2) = Inl IndexError
      \<or> fill_off (scale 2 (cols_from 1 [[-5, 7, 8], [-4, 10, 11]]))
        (scale 2 (cols_from 1 [[-5, 1, 2, 3], [-4, 4, 5, 6]])) [[True, True], [True, False]] 2
        (zeros3 2 2) = Inl ValueError)
   \<and> (\<exists>i<2. \<exists>j<2. [[True, True], [True, False]] ! i ! j
          \<and> rank_in [[True, True], [True, False]] (positions 2) (i, j) = 2)
   \<and> diag_ok 2 [[-5, 0, 0, 0, 1.0, 2.0], [-4, 0, 0, 0, 1.5, 2.5]] [[-5, 0, 0, 0, 1.0, 2.0], [-4, 0, 0, 0, 1.5, 2.5]]
   \<and> read_mask 1 True [''RSPt log'', ''dumpdata: Mask of the printed off-diagonal elements:'', ''1 1'', ''1 0'']
       = Inr [[True, True], [True, False]]
   \<and> off_ok 2 3 [[-5, 7, 8, 9], [-4, 10, 11, 12]] [[-5, 1, 2, 3], [-4, 4, 5, 6]]
   \<and> off_ok 2 3 [[-5, 7, 8, 9, 100], [-4, 10, 11, 12, 200]] [[-5, 1, 2, 3, 300], [-4, 4, 5, 6, 400]]
   \<and> (\<exists>h. fill_off (scale 2 (cols_from 1 [[-5, 7, 8, 9], [-4, 10, 11, 12]]))
              (scale 2 (cols_from 1 [[-5, 1, 2, 3], [-4, 4, 5, 6]])) [[True, True], [True, False]] 2
              (diag_matrix 2 2 (diag_table 2 2 [[-5, 0, 0, 0, 1.0, 2.0], [-4, 0, 0, 0, 1.5, 2.5]]
                                              [[-5, 0, 0, 0, 1.0, 2.0], [-4, 0, 0, 0, 1.5, 2.5]]))
            = Inr (h, 3)
          \<and> h ! 0 ! 1 = map2 (+) (replicate 2 0)
               (off_column 2 [[-5, 7, 8, 9], [-4, 10, 11, 12]] [[-5, 1, 2, 3], [-4, 4, 5, 6]] 2))
   \<and> hyb 2 [[-5, 0, 0, 0, 1.0, 2.0], [-4, 0, 0, 0, 1.5, 2.5]] [[-5, 0, 0, 0, 1.0, 2.0], [-4, 0, 0, 0, 1.5, 2.5]]
        1 True (Some [[-5, 7, 8, 9, 100], [-4, 10, 11, 12, 200]]) (Some [[-5, 1, 2, 3, 300], [-4, 4, 5, 6, 400]])
        (Some [''RSPt log'', ''dumpdata: Mask of the printed off-diagonal elements:'', ''1 1'', ''1 0'']) False
     = hyb 2 [[-5, 0, 0, 0, 1.0, 2.0], [-4, 0, 0, 0, 1.5, 2.5]] [[-5, 0, 0, 0, 1.0, 2.0], [-4, 0, 0, 0, 1.5, 2.5]]
        1 True (Some [[-5, 7, 8, 9], [-4, 10, 11, 12]]) (Some [[-5, 1, 2, 3], [-4, 4, 5, 6]])
        (Some [''RSPt log'', ''dumpdata: Mask of the printed off-diagonal elements:'', ''1 1'', ''1 0'']) False
   \<and> off_short 2 3 [[-5, 7, 8], [-4, 10, 11]] [[-5, 1, 2, 3], [-4, 4, 5, 6]]
   \<and> hyb 2 [[-5, 0, 0, 0, 1.0, 2.0], [-4, 0, 0, 0, 1.5, 2.5]] [[-5, 0, 0, 0, 1.0, 2.0], [-4, 0, 0, 0, 1.5, 2.5]]
        1 True (Some [[-5, 7, 8], [-4, 10, 11]]) (Some [[-5, 1, 2, 3], [-4, 4, 5, 6]])
        (Some [''RSPt log'', ''dumpdata: Mask of the printed off-diagonal elements:'', ''1 1'', ''1 0'']) False
     = Inl IndexError"
proof -
  let ?re = "[[-5, 0, 0, 0, 1.0, 2.0], [-4, 0, 0, 0, 1.5, 2.5::real]]"
  let ?ro = "[[-5, 7, 8, 9], [-4, 10, 11, 12::real]]"
  let ?io = "[[-5, 1, 2, 3], [-4, 4, 5, 6::real]]"
  let ?ro' = "[[-5, 7, 8, 9, 100], [-4, 10, 11, 12, 200::real]]"
  let ?io' = "[[-5, 1, 2, 3, 300], [-4, 4, 5, 6, 400::real]]"
  let ?rs = "[[-5, 7, 8], [-4, 10, 11::real]]"
  let ?out = "[''RSPt log'', ''dumpdata: Mask of the printed off-diagonal elements:'', ''1 1'', ''1 0'']"
  let ?msk = "[[True, True], [True, False]]"
  have ok: "diag_ok 2 ?re ?re"
    by (simp add: diag_ok_def table_ok_def ncols_def)
  have rm: "read_mask 1 True ?out = Inr ?msk" by code_simp
  have ct: "count_true ?msk 2 = 3" by code_simp
  have len: "length ?re = 2" by simp
  have oo: "off_ok 2 3 ?ro ?io" "off_ok 2 3 ?ro' ?io'"
    by (simp_all add: off_ok_def table_ok_def ncols_def)
  have os: "off_short 2 3 ?rs ?io"
    by (simp add: off_short_def table_ok_def ncols_def)
  have nca: "ncols (scale 2 (cols_from 1 ?ro')) = 4" "ncols (scale 2 (cols_from 1 ?io')) = 4"
      "ncols (scale 2 (cols_from 1 ?rs)) = 2"
    by (simp_all add: ncols_def scale_def cols_from_def)
  have pre: "map (take (Suc 3)) ?ro' = map (take (Suc 3)) ?ro" "map (take (Suc 3)) ?io' = map (take (Suc 3)) ?io"
    by simp_all
  have dm: "diag_matrix 2 2 (diag_table 2 2 ?re ?re) ! 0 ! 1 = replicate 2 0"
    by (simp add: diag_matrix_def)
  have rk: "rank_in ?msk (positions 2) (0, 1) = 2" by code_simp
  have m01: "?msk ! 0 ! 1" by simp
  note t = fill_off_consumes_true_cells[of ?msk 2 "scale 2 (cols_from 1 ?ro')" "scale 2 (cols_from 1 ?io')"
      "zeros3 2 2" ?re ?re True 1 ?out ?ro ?io 2 False ?ro' ?io', unfolded len ct]
  note u = fill_off_consumes_true_cells[of ?msk 2 "scale 2 (cols_from 1 ?rs)" "scale 2 (cols_from 1 ?io)"
      "zeros3 2 2" ?re ?re True 1 ?out ?rs ?io 2 False ?ro' ?io', unfolded len ct]
  have c1: "3 \<le> ncols (scale 2 (cols_from 1 ?ro')) \<and> 3 \<le> ncols (scale 2 (cols_from 1 ?io'))"
    unfolding nca by simp
  have p1: "fill_off (scale 2 (cols_from 1 ?ro')) (scale 2 (cols_from 1 ?io')) ?msk 2 (zeros3 2 2)
      \<noteq> Inl IndexError"
    using t[THEN conjunct1, THEN mp, OF c1] by blast
  have c1': "ncols (scale 2 (cols_from 1 ?rs)) < 3 \<or> ncols (scale 2 (cols_from 1 ?io)) < 3"
    unfolding nca by simp
  note p2 = u[THEN conjunct2, THEN conjunct1, THEN mp, OF c1']
  have p3: "\<exists>i<2. \<exists>j<2. ?msk ! i ! j \<and> rank_in ?msk (positions 2) (i, j) = 2"
    using t[THEN conjunct2, THEN conjunct2, THEN conjunct1] by simp
  have nc: "(2::nat) = (if True then 2 * 1 else 1)" by simp
  have c2: "diag_ok 2 ?re ?re \<and> (2::nat) = (if True then 2 * 1 else 1)
      \<and> read_mask 1 True ?out = Inr ?msk"
    using ok nc rm by blast
  note t2 = t[THEN conjunct2, THEN conjunct2, THEN conjunct2, THEN mp, OF c2, THEN conjunct1, THEN mp, OF oo(1)]
  note u2 = u[THEN conjunct2, THEN conjunct2, THEN conjunct2, THEN mp, OF c2, THEN conjunct2, THEN mp, OF os]
  obtain h where h: "fill_off (scale 2 (cols_from 1 ?ro)) (scale 2 (cols_from 1 ?io)) ?msk 2
                 (diag_matrix 2 2 (diag_table 2 2 ?re ?re)) = Inr (h, 3)"
      "\<forall>i<2. \<forall>j<2. h ! i ! j =
                    (if ?msk ! i ! j
                     then map2 (+) (diag_matrix 2 2 (diag_table 2 2 ?re ?re) ! i ! j)
                            (off_column 2 ?ro ?io (rank_in ?msk (positions 2) (i, j)))
                     else diag_matrix 2 2 (diag_table 2 2 ?re ?re) ! i ! j)"
    using t2[THEN conjunct1] by blast
  have "h ! 0 ! 1 = (if ?msk ! 0 ! 1
                     then map2 (+) (diag_matrix 2 2 (diag_table 2 2 ?re ?re) ! 0 ! 1)
                            (off_column 2 ?ro ?io (rank_in ?msk (positions 2) (0, 1)))
                     else diag_matrix 2 2 (diag_table 2 2 ?re ?re) ! 0 ! 1)"
    using h(2) by simp
  then have h01: "h ! 0 ! 1 = map2 (+) (replicate 2 0) (off_column 2 ?ro ?io 2)"
    unfolding rk dm using m01 by simp
  have c3: "off_ok 2 3 ?ro' ?io' \<and> map (take (Suc 3)) ?ro' = map (take (Suc 3)) ?ro
      \<and> map (take (Suc 3)) ?io' = map (take (Suc 3)) ?io"
    using oo(2) pre by blast
  note p4 = t2[THEN conjunct2, THEN mp, OF c3]
  show ?thesis
    using ct nca p1 p2 p3 ok rm oo os h(1) h01 p4 u2 by blast
qed

subsection \<open>A log file without the mask\<close>

text \<open>
  C7. A log without the phrase: the command still ends with exit status 0 and an empty
  output, so \<^verbatim>\<open>check_output\<close> does not raise and the handler of line 67 is not
  entered; the empty array cannot be reshaped, and \<open>hyb\<close> ends in the \<^verbatim>\<open>ValueError\<close>
  of line 66, not in the message of line 68.
\<close>

theorem hyb_mask_absent:
  "check_output (mask_cmd 1 [''RSPt log'', ''no mask was printed'']) = Inr []
   \<and> hyb 2 [[-5, 0, 0, 0, 1.0, 2.0], [-4, 0, 0, 0, 1.5, 2.5]] [[-5, 0, 0, 0, 1.0, 2.0], [-4, 0, 0, 0, 1.5, 2.5]]
        1 True (Some [[-5, 7, 8, 9], [-4, 10, 11, 12]]) (Some [[-5, 1, 2, 3], [-4, 4, 5, 6]])
        (Some [''RSPt log'', ''no mask was printed'']) False = Inl ValueError"
proof -
  let ?re = "[[-5, 0, 0, 0, 1.0, 2.0], [-4, 0, 0, 0, 1.5, 2.5::real]]"
  have ok: "diag_ok 2 ?re ?re"
    by (simp add: diag_ok_def table_ok_def ncols_def)
  have nc: "(2::nat) = (if True then 2 * 1 else 1)" by simp
  have ab: "\<forall>x \<in> set [''RSPt log'', ''no mask was printed'']. \<not> contains search_phrase x"
    by (simp add: search_phrase_def)
  have "check_output (mask_cmd 1 [''RSPt log'', ''no mask was printed'']) = Inr []"
    by (simp add: mask_cmd_absent[OF ab] check_output_def)
  moreover have "hyb 2 ?re ?re 1 True (Some [[-5, 7, 8, 9], [-4, 10, 11, 12]]) (Some [[-5, 1, 2, 3], [-4, 4, 5, 6]])
        (Some [''RSPt log'', ''no mask was printed'']) False = Inl ValueError"
    by (subst hyb_on_valid[OF ok nc])
      (simp add: hyb_off_def loadtxt_def is2d_def read_mask_absent[OF ab])
  ultimately show ?thesis by simp
qed

end
